theory Spec2Isabelle
  imports Main "HOL-Library.Word"
begin

unbundle bit_operations_syntax

section \<open>The LuckyBall contract: data model\<close>

text \<open>
  The contract verified here is \<^verbatim>\<open>contract LuckyBall\<close> (Solidity 0.8.24), which the
  repository's tests, tasks and UI drive. Solidity's \<^verbatim>\<open>uint8\<close>, \<^verbatim>\<open>uint32\<close>,
  \<^verbatim>\<open>uint256\<close> and \<^verbatim>\<open>address\<close> are words of that width. A position in a storage
  array (a ticket index, an array length) is a natural number.
\<close>

type_synonym address = "160 word"
type_synonym uint256 = "256 word"
type_synonym uint32 = "32 word"
type_synonym uint8 = "8 word"

text \<open>
  Modelled from the spec: the Encrypted Value Capability (the imported library
  \<^verbatim>\<open>@fhevm/solidity/lib/FHE.sol\<close>) is not in the repository; the contract only calls
  it. The spec describes it as an opaque encrypted-integer type with
  \<^verbatim>\<open>importExternal\<close>, \<^verbatim>\<open>fromPlaintext\<close>, \<^verbatim>\<open>equals\<close>, \<^verbatim>\<open>select\<close>, \<^verbatim>\<open>add\<close> and
  \<^verbatim>\<open>grantDecrypt\<close>. An encrypted value is a handle. The all-zero handle
  (\<^verbatim>\<open>ZeroHash\<close> in the tests, tasks and UI) is the uninitialised one, "distinguishable
  from zero to external readers, but logically zero"; every other handle stands for a
  ciphertext and is represented by the plaintext it encrypts. The plaintext of a
  \<^verbatim>\<open>euint8\<close> is a \<^verbatim>\<open>uint8\<close>, that of a \<^verbatim>\<open>euint32\<close> a \<^verbatim>\<open>uint32\<close>, so
  \<open>FHE_add\<close> adds modulo \<open>2 ^ 32\<close>.
\<close>

datatype 'a euint = Uninitialized | Encrypted 'a

type_synonym euint8 = "uint8 euint"
type_synonym euint32 = "uint32 euint"
type_synonym ebool = "bool euint"

text \<open>Modelled from the spec: the plaintext an operand of \<^verbatim>\<open>equals\<close> or \<^verbatim>\<open>add\<close> stands
  for; the uninitialised handle is logically zero.\<close>

fun operand :: "'a::zero euint \<Rightarrow> 'a" where
  "operand Uninitialized = 0"
| "operand (Encrypted v) = v"

text \<open>Modelled from the spec: \<^verbatim>\<open>fromPlaintext\<close> (\<^verbatim>\<open>FHE.asEuint8\<close>,
  \<^verbatim>\<open>FHE.asEuint32\<close>), \<^verbatim>\<open>equals\<close> (\<^verbatim>\<open>FHE.eq\<close>), \<^verbatim>\<open>add\<close> (\<^verbatim>\<open>FHE.add\<close>) and
  \<^verbatim>\<open>select\<close> (\<^verbatim>\<open>FHE.select\<close>: the second argument if the condition encrypts true,
  the third otherwise).\<close>

definition FHE_asEuint8 :: "uint8 \<Rightarrow> euint8" where
  "FHE_asEuint8 v = Encrypted v"

definition FHE_asEuint32 :: "uint32 \<Rightarrow> euint32" where
  "FHE_asEuint32 v = Encrypted v"

definition FHE_eq :: "euint8 \<Rightarrow> euint8 \<Rightarrow> ebool" where
  "FHE_eq a b = Encrypted (operand a = operand b)"

definition FHE_add :: "euint32 \<Rightarrow> euint32 \<Rightarrow> euint32" where
  "FHE_add a b = Encrypted (operand a + operand b)"

definition FHE_select :: "ebool \<Rightarrow> euint32 \<Rightarrow> euint32 \<Rightarrow> euint32" where
  "FHE_select c a b = (if c = Encrypted True then a else b)"

text \<open>
  Modelled from the spec: \<^verbatim>\<open>importExternal(ciphertext, proof)\<close>
  (\<^verbatim>\<open>FHE.fromExternal\<close>) fails with \<^verbatim>\<open>InvalidProof\<close> if the proof does not validate the
  ciphertext. The external ciphertext is represented by the number the client encrypted,
  the proof by whether the input verifier accepts it; \<open>None\<close> is the failure.
\<close>

type_synonym externalEuint8 = uint8
type_synonym inputProof = bool

definition FHE_fromExternal :: "externalEuint8 \<Rightarrow> inputProof \<Rightarrow> euint8 option" where
  "FHE_fromExternal encryptedNumber proof_ok =
     (if proof_ok then Some (Encrypted encryptedNumber) else None)"

record Ticket =
  number :: euint8
  drawId :: uint256
  claimed :: bool

record Draw =
  winningNumber :: uint8
  executedAt :: uint256
  executed :: bool

datatype event =
    TicketPurchased address uint256 nat
  | DrawExecuted uint256 uint8
  | TicketClaimProcessed address uint256 nat

text \<open>Modelled from the spec: \<^verbatim>\<open>grantDecrypt(value, principal)\<close> (\<^verbatim>\<open>FHE.allowThis\<close>,
  \<^verbatim>\<open>FHE.allow\<close>). The grants live outside the contract's storage; they are kept as a
  log, like the events: which value was opened to whom.\<close>

datatype handle = Handle8 euint8 | Handle32 euint32
datatype grantee = This | Account address

text \<open>
  The contract's storage, with the two logs a transaction appends to. A Solidity mapping
  is a total function: a key never written reads as the zero value of its type.
\<close>

record LuckyBall =
  playerTickets :: "address \<Rightarrow> Ticket list"
  playerScores :: "address \<Rightarrow> euint32"
  scoreInitialized :: "address \<Rightarrow> bool"
  draws :: "uint256 \<Rightarrow> Draw"
  currentDrawId :: uint256
  events :: "event list"
  grants :: "(handle \<times> grantee) list"

definition TICKET_PRICE :: uint256 where
  "TICKET_PRICE = 1000000000000000"

definition MIN_NUMBER :: uint8 where
  "MIN_NUMBER = 1"

definition MAX_NUMBER :: uint8 where
  "MAX_NUMBER = 9"

definition WIN_REWARD :: uint32 where
  "WIN_REWARD = 10"

text \<open>The zero values a never-written mapping entry or a pushed array slot holds.\<close>

definition zero_Draw :: Draw where
  "zero_Draw = \<lparr>winningNumber = 0, executedAt = 0, executed = False\<rparr>"

definition zero_Ticket :: Ticket where
  "zero_Ticket = \<lparr>number = Uninitialized, drawId = 0, claimed = False\<rparr>"

text \<open>
  A failed \<^verbatim>\<open>require\<close> reverts with its message; checked arithmetic reverts with a
  panic. In the spec's vocabulary \<open>InvalidTicketPrice\<close> is \<^verbatim>\<open>InvalidPayment\<close>,
  \<open>DrawAlreadyExecuted\<close> is \<^verbatim>\<open>DrawClosed\<close> / \<^verbatim>\<open>AlreadyResolved\<close>,
  \<open>InvalidTicketIndex\<close> is \<^verbatim>\<open>InvalidIndex\<close>, \<open>AlreadyProcessed\<close> is
  \<^verbatim>\<open>AlreadyClaimed\<close> and \<open>DrawNotExecuted\<close> is \<^verbatim>\<open>DrawNotResolved\<close>.
\<close>

datatype error =
    InvalidTicketPrice
  | DrawAlreadyExecuted
  | InvalidProof
  | InvalidTicketIndex
  | AlreadyProcessed
  | DrawNotExecuted
  | ArithmeticPanic

text \<open>
  What a transaction reads from its block. \<open>prev_blockhash\<close> is
  \<^verbatim>\<open>blockhash(block.number - 1)\<close>: a transaction runs in a block after the genesis
  block, so that subtraction cannot underflow. \<^verbatim>\<open>keccak256(abi.encodePacked(...))\<close>
  is a builtin of the EVM; the functions below take it as the parameter \<open>keccak\<close>, from
  the five packed values to the 256-bit digest.
\<close>

record block_env =
  prevrandao :: uint256
  prev_blockhash :: uint256
  this_address :: address
  timestamp :: uint256

type_synonym hash = "uint256 \<times> uint256 \<times> address \<times> uint256 \<times> uint256 \<Rightarrow> uint256"

section \<open>The contract's functions\<close>

text \<open>
  Each function takes the state and returns the error it reverts with, or the new state
  and its return value. \<open>sender\<close> is \<^verbatim>\<open>msg.sender\<close>, \<open>msg_value\<close> is
  \<^verbatim>\<open>msg.value\<close>. The private functions \<^verbatim>\<open>_ensureScore\<close> and
  \<^verbatim>\<open>_generateWinningNumber\<close> are \<open>ensureScore\<close> and \<open>generateWinningNumber\<close>.
\<close>

definition constructor :: "block_env \<Rightarrow> LuckyBall" where
  "constructor env =
     \<lparr>playerTickets = (\<lambda>_. []),
      playerScores = (\<lambda>_. Uninitialized),
      scoreInitialized = (\<lambda>_. False),
      draws = (\<lambda>_. zero_Draw)
        (1 := \<lparr>winningNumber = 0, executedAt = timestamp env, executed = False\<rparr>),
      currentDrawId = 1,
      events = [],
      grants = []\<rparr>"

definition ensureScore :: "address \<Rightarrow> LuckyBall \<Rightarrow> LuckyBall" where
  "ensureScore player s =
     (if \<not> scoreInitialized s player then
        let zeroScore = FHE_asEuint32 0 in
        s\<lparr>playerScores := (playerScores s)(player := zeroScore),
          grants := grants s @ [(Handle32 zeroScore, This), (Handle32 zeroScore, Account player)],
          scoreInitialized := (scoreInitialized s)(player := True)\<rparr>
      else
        s\<lparr>grants := grants s @ [(Handle32 (playerScores s player), Account player)]\<rparr>)"

text \<open>\<^verbatim>\<open>uint8((randomness % MAX_NUMBER) + MIN_NUMBER)\<close>: the remainder and the sum are
  taken in \<^verbatim>\<open>uint256\<close> (the sum is at most 9, so its overflow check cannot fail), the
  conversion to \<^verbatim>\<open>uint8\<close> truncates.\<close>

definition generateWinningNumber :: "hash \<Rightarrow> block_env \<Rightarrow> LuckyBall \<Rightarrow> uint8" where
  "generateWinningNumber keccak env s =
     (let randomness =
        keccak (prevrandao env, prev_blockhash env, this_address env, currentDrawId s,
                timestamp env)
      in ucast ((randomness mod ucast MAX_NUMBER) + ucast MIN_NUMBER))"

definition buyTicket ::
  "address \<Rightarrow> uint256 \<Rightarrow> externalEuint8 \<Rightarrow> inputProof \<Rightarrow> LuckyBall \<Rightarrow> error + LuckyBall \<times> nat"
where
  "buyTicket sender msg_value encryptedNumber proof_ok s =
     (if msg_value \<noteq> TICKET_PRICE then Inl InvalidTicketPrice
      else if executed (draws s (currentDrawId s)) then Inl DrawAlreadyExecuted
      else case FHE_fromExternal encryptedNumber proof_ok of
        None \<Rightarrow> Inl InvalidProof
      | Some num \<Rightarrow>
          let s1 = ensureScore sender s;
              pushed = playerTickets s1 sender @ [zero_Ticket];
              index = length pushed - 1;
              ticket = (pushed ! index)
                \<lparr>number := num, drawId := currentDrawId s1, claimed := False\<rparr>
          in Inr
               (s1\<lparr>playerTickets := (playerTickets s1)(sender := pushed[index := ticket]),
                   grants := grants s1 @ [(Handle8 num, This), (Handle8 num, Account sender)],
                   events := events s1 @ [TicketPurchased sender (currentDrawId s1) index]\<rparr>,
                index))"

text \<open>\<^verbatim>\<open>currentDrawId += 1\<close> is checked arithmetic: at \<open>2 ^ 256 - 1\<close>, the word
  \<open>- 1\<close>, it reverts with a panic, and the writes before it are undone with the rest of
  the call.\<close>

definition executeDraw :: "hash \<Rightarrow> block_env \<Rightarrow> LuckyBall \<Rightarrow> error + LuckyBall \<times> uint8" where
  "executeDraw keccak env s =
     (if executed (draws s (currentDrawId s)) then Inl DrawAlreadyExecuted
      else
        let result = generateWinningNumber keccak env s;
            s1 = s\<lparr>draws := (draws s)
                     (currentDrawId s :=
                        \<lparr>winningNumber = result, executedAt = timestamp env, executed = True\<rparr>),
                   events := events s @ [DrawExecuted (currentDrawId s) result]\<rparr>
        in if currentDrawId s1 = - 1 then Inl ArithmeticPanic
           else
             let s2 = s1\<lparr>currentDrawId := currentDrawId s1 + 1\<rparr>
             in Inr
                  (s2\<lparr>draws := (draws s2)
                        (currentDrawId s2 :=
                           \<lparr>winningNumber = 0, executedAt = timestamp env, executed = False\<rparr>)\<rparr>,
                   result))"

definition claimTicket :: "address \<Rightarrow> nat \<Rightarrow> LuckyBall \<Rightarrow> error + LuckyBall \<times> unit" where
  "claimTicket sender ticketIndex s =
     (if \<not> ticketIndex < length (playerTickets s sender) then Inl InvalidTicketIndex
      else
        let ticket = playerTickets s sender ! ticketIndex in
        if claimed ticket then Inl AlreadyProcessed
        else
          let settledDraw = draws s (drawId ticket) in
          if \<not> executed settledDraw then Inl DrawNotExecuted
          else
            let winningEncrypted = FHE_asEuint8 (winningNumber settledDraw);
                isWinner = FHE_eq (number ticket) winningEncrypted;
                currentScore = playerScores s sender;
                incremented = FHE_add currentScore (FHE_asEuint32 WIN_REWARD);
                nextScore = FHE_select isWinner incremented currentScore
            in Inr
                 (s\<lparr>playerScores := (playerScores s)(sender := nextScore),
                    playerTickets := (playerTickets s)
                      (sender := (playerTickets s sender)[ticketIndex := ticket\<lparr>claimed := True\<rparr>]),
                    grants := grants s @ [(Handle32 nextScore, This), (Handle32 nextScore, Account sender)],
                    events := events s @ [TicketClaimProcessed sender (drawId ticket) ticketIndex]\<rparr>,
                  ()))"

text \<open>The view functions. A call to a view function is a call like any other: it returns
  a value or reverts; none of these has a reverting path.\<close>

definition getScore :: "LuckyBall \<Rightarrow> address \<Rightarrow> error + euint32" where
  "getScore s player = Inr (playerScores s player)"

definition getTickets :: "LuckyBall \<Rightarrow> address \<Rightarrow> error + Ticket list" where
  "getTickets s player = Inr (playerTickets s player)"

definition getDraw :: "LuckyBall \<Rightarrow> uint256 \<Rightarrow> error + Draw" where
  "getDraw s d = Inr (draws s d)"

definition totalTickets :: "LuckyBall \<Rightarrow> address \<Rightarrow> error + nat" where
  "totalTickets s player = Inr (length (playerTickets s player))"

text \<open>A reverted call leaves the state it started from (and appends to neither log); a
  successful one leaves the state it returns.\<close>

fun state_after :: "LuckyBall \<Rightarrow> error + LuckyBall \<times> 'r \<Rightarrow> LuckyBall" where
  "state_after s (Inl e) = s"
| "state_after s (Inr (s', r)) = s'"

section \<open>Transactions and reachable states\<close>

text \<open>One successful transaction, by any sender with any arguments in any block.\<close>

inductive step :: "hash \<Rightarrow> LuckyBall \<Rightarrow> LuckyBall \<Rightarrow> bool" for keccak :: hash where
  step_buy: "buyTicket sender msg_value encryptedNumber proof_ok s = Inr (s', i)
     \<Longrightarrow> step keccak s s'"
| step_draw: "executeDraw keccak env s = Inr (s', w) \<Longrightarrow> step keccak s s'"
| step_claim: "claimTicket sender ticketIndex s = Inr (s', u) \<Longrightarrow> step keccak s s'"

inductive reachable :: "hash \<Rightarrow> LuckyBall \<Rightarrow> bool" for keccak :: hash where
  reachable_init: "reachable keccak (constructor env)"
| reachable_step: "reachable keccak s \<Longrightarrow> step keccak s s' \<Longrightarrow> reachable keccak s'"

section \<open>A concrete run\<close>

text \<open>
  The run of the repository's test, shortened: alice buys a ticket on 8 and a ticket on 3,
  the draw is executed and both tickets are claimed. \<open>demo_keccak\<close> stands in for the
  digest, so that the run can be evaluated: with it the first draw's number is
  \<open>(6 + 1) mod 9 + 1 = 8\<close>.
\<close>

definition demo_keccak :: hash where
  "demo_keccak x = (case x of (r, b, a, d, t) \<Rightarrow> r + d)"

definition demo_env :: block_env where
  "demo_env = \<lparr>prevrandao = 6, prev_blockhash = 0, this_address = 0, timestamp = 1000\<rparr>"

definition alice :: address where
  "alice = 1"

definition bob :: address where
  "bob = 2"

definition demo_open :: LuckyBall where
  "demo_open = constructor demo_env"

definition demo_bought1 :: LuckyBall where
  "demo_bought1 = state_after demo_open (buyTicket alice TICKET_PRICE 8 True demo_open)"

definition demo_bought2 :: LuckyBall where
  "demo_bought2 = state_after demo_bought1 (buyTicket alice TICKET_PRICE 3 True demo_bought1)"

definition demo_drawn :: LuckyBall where
  "demo_drawn = state_after demo_bought2 (executeDraw demo_keccak demo_env demo_bought2)"

definition demo_claimed1 :: LuckyBall where
  "demo_claimed1 = state_after demo_drawn (claimTicket alice 0 demo_drawn)"

definition demo_claimed2 :: LuckyBall where
  "demo_claimed2 = state_after demo_claimed1 (claimTicket alice 1 demo_claimed1)"

text \<open>
  Anyone may call \<^verbatim>\<open>executeDraw\<close>, any number of times. \<open>executeDraw_times n\<close> is the
  state after \<open>n\<close> such calls in a row, and \<open>demo_last_draw\<close> the state of a fresh
  contract after \<open>2 ^ 256 - 2\<close> of them.
\<close>

fun executeDraw_times :: "hash \<Rightarrow> block_env \<Rightarrow> nat \<Rightarrow> LuckyBall \<Rightarrow> LuckyBall" where
  "executeDraw_times keccak env 0 s = s"
| "executeDraw_times keccak env (Suc n) s =
     (let s' = executeDraw_times keccak env n s
      in state_after s' (executeDraw keccak env s'))"

definition demo_last_draw :: LuckyBall where
  "demo_last_draw = executeDraw_times demo_keccak demo_env (2 ^ 256 - 2) demo_open"

text \<open>
  A player may buy and claim any number of tickets. \<open>buyTicket_times p v n\<close> is the
  state after \<open>n\<close> purchases by \<open>p\<close> in a row, each on the number \<open>v\<close> with
  the exact price and a valid proof; \<open>claimTicket_times p n\<close> is the state after \<open>p\<close>
  has claimed the tickets at the indices \<open>0\<close> to \<open>n - 1\<close> in turn. In the run below
  alice buys 429496730 tickets on 8, the draw gives 8, and she claims all but the last
  (\<open>demo_high_score\<close>) and then the last (\<open>demo_wrapped\<close>).
\<close>

fun buyTicket_times :: "address \<Rightarrow> externalEuint8 \<Rightarrow> nat \<Rightarrow> LuckyBall \<Rightarrow> LuckyBall" where
  "buyTicket_times p v 0 s = s"
| "buyTicket_times p v (Suc n) s =
     (let s' = buyTicket_times p v n s
      in state_after s' (buyTicket p TICKET_PRICE v True s'))"

fun claimTicket_times :: "address \<Rightarrow> nat \<Rightarrow> LuckyBall \<Rightarrow> LuckyBall" where
  "claimTicket_times p 0 s = s"
| "claimTicket_times p (Suc n) s =
     (let s' = claimTicket_times p n s
      in state_after s' (claimTicket p n s'))"

definition demo_many_bought :: LuckyBall where
  "demo_many_bought = buyTicket_times alice 8 429496730 demo_open"

definition demo_many_drawn :: LuckyBall where
  "demo_many_drawn =
     state_after demo_many_bought (executeDraw demo_keccak demo_env demo_many_bought)"

definition demo_high_score :: LuckyBall where
  "demo_high_score = claimTicket_times alice 429496729 demo_many_drawn"

definition demo_wrapped :: LuckyBall where
  "demo_wrapped = state_after demo_high_score (claimTicket alice 429496729 demo_high_score)"

section \<open>What a successful call returns\<close>

lemma buyTicket_Inr:
  "buyTicket sender msg_value encryptedNumber proof_ok s = Inr (s', i) \<longleftrightarrow>
     msg_value = TICKET_PRICE \<and> \<not> executed (draws s (currentDrawId s)) \<and> proof_ok \<and>
     i = length (playerTickets s sender) \<and>
     s' = (ensureScore sender s)
       \<lparr>playerTickets := (playerTickets s)
          (sender := playerTickets s sender @
             [\<lparr>number = Encrypted encryptedNumber, drawId = currentDrawId s, claimed = False\<rparr>]),
        grants := grants (ensureScore sender s) @
          [(Handle8 (Encrypted encryptedNumber), This),
           (Handle8 (Encrypted encryptedNumber), Account sender)],
        events := events s @ [TicketPurchased sender (currentDrawId s) (length (playerTickets s sender))]\<rparr>"
  by (auto simp: buyTicket_def FHE_fromExternal_def ensureScore_def Let_def zero_Ticket_def
      split: option.splits)

lemma executeDraw_Inr:
  "executeDraw keccak env s = Inr (s', w) \<longleftrightarrow>
     \<not> executed (draws s (currentDrawId s)) \<and> currentDrawId s \<noteq> - 1 \<and>
     w = generateWinningNumber keccak env s \<and>
     s' = s\<lparr>draws := (draws s)
               (currentDrawId s :=
                  \<lparr>winningNumber = w, executedAt = timestamp env, executed = True\<rparr>,
                currentDrawId s + 1 :=
                  \<lparr>winningNumber = 0, executedAt = timestamp env, executed = False\<rparr>),
             events := events s @ [DrawExecuted (currentDrawId s) w],
             currentDrawId := currentDrawId s + 1\<rparr>"
  by (auto simp: executeDraw_def Let_def)

lemma claimTicket_Inr:
  "claimTicket sender ticketIndex s = Inr (s', u) \<longleftrightarrow>
     ticketIndex < length (playerTickets s sender) \<and>
     \<not> claimed (playerTickets s sender ! ticketIndex) \<and>
     executed (draws s (drawId (playerTickets s sender ! ticketIndex))) \<and>
     s' = s\<lparr>playerScores := (playerScores s)
               (sender :=
                  if operand (number (playerTickets s sender ! ticketIndex)) =
                     winningNumber (draws s (drawId (playerTickets s sender ! ticketIndex)))
                  then Encrypted (operand (playerScores s sender) + 10)
                  else playerScores s sender),
             playerTickets := (playerTickets s)
               (sender := (playerTickets s sender)
                  [ticketIndex := (playerTickets s sender ! ticketIndex)\<lparr>claimed := True\<rparr>]),
             grants := grants s @
               [(Handle32 (if operand (number (playerTickets s sender ! ticketIndex)) =
                     winningNumber (draws s (drawId (playerTickets s sender ! ticketIndex)))
                  then Encrypted (operand (playerScores s sender) + 10)
                  else playerScores s sender), This),
                (Handle32 (if operand (number (playerTickets s sender ! ticketIndex)) =
                     winningNumber (draws s (drawId (playerTickets s sender ! ticketIndex)))
                  then Encrypted (operand (playerScores s sender) + 10)
                  else playerScores s sender), Account sender)],
             events := events s @
               [TicketClaimProcessed sender (drawId (playerTickets s sender ! ticketIndex)) ticketIndex]\<rparr>"
  by (auto simp: claimTicket_def Let_def FHE_asEuint8_def FHE_asEuint32_def FHE_eq_def FHE_add_def
      FHE_select_def WIN_REWARD_def)

section \<open>Counting draws without wrap-around\<close>

lemma unat_succ: "c \<noteq> - 1 \<Longrightarrow> unat (c + 1) = Suc (unat c)" for c :: uint256
  by (metis add.commute max_word_wrap unatSuc)

lemma succ_neq_0: "c \<noteq> - 1 \<Longrightarrow> c + 1 \<noteq> 0" for c :: uint256
  using max_word_wrap by blast

lemma less_succ_iff: "c \<noteq> - 1 \<Longrightarrow> d < c + 1 \<longleftrightarrow> d \<le> c" for c d :: uint256
  by (simp add: word_less_nat_alt word_le_nat_alt unat_succ less_Suc_eq_le)

lemma succ_le_iff: "c \<noteq> - 1 \<Longrightarrow> c + 1 \<le> d \<longleftrightarrow> c < d" for c d :: uint256
  by (simp add: word_less_nat_alt word_le_nat_alt unat_succ Suc_le_eq)

lemma less_succ: "c \<noteq> - 1 \<Longrightarrow> c < c + 1" for c :: uint256
  by (simp add: less_succ_iff)

section \<open>Invariants of the reachable states\<close>

lemma reachable_draws:
  "reachable keccak s \<Longrightarrow>
     currentDrawId s \<noteq> 0 \<and>
     (\<forall>d. executed (draws s d) \<longleftrightarrow> d \<noteq> 0 \<and> d < currentDrawId s) \<and>
     (\<forall>d. d = 0 \<or> currentDrawId s < d \<longrightarrow> draws s d = zero_Draw)"
proof (induction rule: reachable.induct)
  case (reachable_init env)
  show ?case
    by (auto simp: constructor_def zero_Draw_def)
next
  case (reachable_step s s')
  from reachable_step.hyps(2) show ?case
  proof cases
    case (step_buy sender msg_value encryptedNumber proof_ok i)
    then have "draws s' = draws s" "currentDrawId s' = currentDrawId s"
      by (auto simp: buyTicket_Inr ensureScore_def Let_def)
    with reachable_step.IH show ?thesis by simp
  next
    case (step_claim sender ticketIndex u)
    then have "draws s' = draws s" "currentDrawId s' = currentDrawId s"
      by (auto simp: claimTicket_Inr)
    with reachable_step.IH show ?thesis by simp
  next
    case (step_draw env w)
    let ?c = "currentDrawId s"
    from step_draw have c: "?c \<noteq> - 1"
      and cur: "currentDrawId s' = ?c + 1"
      and dr: "draws s' = (draws s)
               (?c := \<lparr>winningNumber = w, executedAt = timestamp env, executed = True\<rparr>,
                ?c + 1 := \<lparr>winningNumber = 0, executedAt = timestamp env, executed = False\<rparr>)"
      by (auto simp: executeDraw_Inr)
    from reachable_step.IH have c0: "?c \<noteq> 0"
      and ex: "\<And>d. executed (draws s d) \<longleftrightarrow> d \<noteq> 0 \<and> d < ?c"
      and ze: "\<And>d. d = 0 \<or> ?c < d \<Longrightarrow> draws s d = zero_Draw"
      by auto
    have ne: "?c + 1 \<noteq> ?c" by simp
    have a: "currentDrawId s' \<noteq> 0"
      using c cur succ_neq_0 by simp
    have b: "executed (draws s' d) \<longleftrightarrow> d \<noteq> 0 \<and> d < currentDrawId s'" for d
    proof (cases "d = ?c + 1")
      case True
      then show ?thesis by (simp add: dr cur)
    next
      case False
      show ?thesis
      proof (cases "d = ?c")
        case True
        then show ?thesis using c c0 ne by (simp add: dr cur less_succ)
      next
        case dc: False
        have "d < ?c + 1 \<longleftrightarrow> d < ?c"
          using c dc by (auto simp: less_succ_iff word_le_less_eq)
        then show ?thesis using False dc by (simp add: dr cur ex)
      qed
    qed
    have z: "draws s' d = zero_Draw" if "d = 0 \<or> currentDrawId s' < d" for d
    proof -
      from that have "d = 0 \<or> (?c < d \<and> d \<noteq> ?c + 1)"
        using c less_succ [of ?c] by (auto simp: cur)
      then have "d \<noteq> ?c" "d \<noteq> ?c + 1" "d = 0 \<or> ?c < d"
        using c0 a cur by auto
      then show ?thesis by (simp add: dr ze)
    qed
    from a b z show ?thesis by blast
  qed
qed

lemma reachable_tickets:
  "reachable keccak s \<Longrightarrow> t \<in> set (playerTickets s p) \<Longrightarrow>
     drawId t \<noteq> 0 \<and> drawId t \<le> currentDrawId s \<and>
     (claimed t \<longrightarrow> drawId t < currentDrawId s) \<and> number t \<noteq> Uninitialized"
proof (induction arbitrary: t p rule: reachable.induct)
  case (reachable_init env)
  then show ?case by (simp add: constructor_def)
next
  case (reachable_step s s')
  from reachable_step.hyps(2) show ?case
  proof cases
    case (step_buy sender msg_value encryptedNumber proof_ok i)
    then have cur: "currentDrawId s' = currentDrawId s"
      and tk: "playerTickets s' = (playerTickets s)
          (sender := playerTickets s sender @
             [\<lparr>number = Encrypted encryptedNumber, drawId = currentDrawId s, claimed = False\<rparr>])"
      by (auto simp: buyTicket_Inr ensureScore_def Let_def)
    from reachable_draws [OF reachable_step.hyps(1)] have c0: "currentDrawId s \<noteq> 0"
      by simp
    from reachable_step.prems tk
    consider "t \<in> set (playerTickets s p)"
      | "t = \<lparr>number = Encrypted encryptedNumber, drawId = currentDrawId s, claimed = False\<rparr>"
      by (auto split: if_splits)
    then show ?thesis
    proof cases
      case 1
      then show ?thesis using reachable_step.IH cur by simp
    next
      case 2
      then show ?thesis using c0 cur by simp
    qed
  next
    case (step_draw env w)
    then have c: "currentDrawId s \<noteq> - 1"
      and cur: "currentDrawId s' = currentDrawId s + 1"
      and tk: "playerTickets s' = playerTickets s"
      by (auto simp: executeDraw_Inr)
    from reachable_step.prems tk have "t \<in> set (playerTickets s p)" by simp
    from reachable_step.IH [OF this] show ?thesis
      using c by (auto simp: cur less_succ_iff word_le_less_eq)
  next
    case (step_claim sender ticketIndex u)
    let ?old = "playerTickets s sender ! ticketIndex"
    from step_claim have cur: "currentDrawId s' = currentDrawId s"
      and idx: "ticketIndex < length (playerTickets s sender)"
      and exd: "executed (draws s (drawId ?old))"
      and tk: "playerTickets s' = (playerTickets s)
               (sender := (playerTickets s sender)[ticketIndex := ?old\<lparr>claimed := True\<rparr>])"
      by (auto simp: claimTicket_Inr)
    from idx have old: "?old \<in> set (playerTickets s sender)" by simp
    from exd reachable_draws [OF reachable_step.hyps(1)]
    have lt: "drawId ?old < currentDrawId s" by simp
    from reachable_step.prems tk
    consider "t \<in> set (playerTickets s p)" | "t = ?old\<lparr>claimed := True\<rparr>"
      by (auto split: if_splits dest: set_update_subset_insert [THEN subsetD])
    then show ?thesis
    proof cases
      case 1
      then show ?thesis using reachable_step.IH cur by simp
    next
      case 2
      then show ?thesis using reachable_step.IH [OF old] lt cur by simp
    qed
  qed
qed

lemma reachable_scores:
  "reachable keccak s \<Longrightarrow>
     (scoreInitialized s p \<longrightarrow> playerScores s p \<noteq> Uninitialized) \<and>
     (\<not> scoreInitialized s p \<longrightarrow> playerScores s p = Uninitialized \<and> playerTickets s p = [])"
proof (induction rule: reachable.induct)
  case (reachable_init env)
  show ?case by (simp add: constructor_def)
next
  case (reachable_step s s')
  from reachable_step.hyps(2) show ?case
  proof cases
    case (step_buy sender msg_value encryptedNumber proof_ok i)
    then show ?thesis using reachable_step.IH
      by (auto simp: buyTicket_Inr ensureScore_def Let_def FHE_asEuint32_def)
  next
    case (step_draw env w)
    then show ?thesis using reachable_step.IH
      by (auto simp: executeDraw_Inr)
  next
    case (step_claim sender ticketIndex u)
    then show ?thesis using reachable_step.IH
      by (auto simp: claimTicket_Inr)
  qed
qed

lemma reachable_initialized:
  "reachable keccak s \<Longrightarrow> scoreInitialized s p \<longleftrightarrow> playerTickets s p \<noteq> []"
proof (induction rule: reachable.induct)
  case (reachable_init env)
  show ?case by (simp add: constructor_def)
next
  case (reachable_step s s')
  from reachable_step.hyps(2) show ?case
  proof cases
    case (step_buy sender msg_value encryptedNumber proof_ok i)
    then show ?thesis using reachable_step.IH
      by (auto simp: buyTicket_Inr ensureScore_def Let_def)
  next
    case (step_draw env w)
    then show ?thesis using reachable_step.IH
      by (auto simp: executeDraw_Inr)
  next
    case (step_claim sender ticketIndex u)
    then show ?thesis using reachable_step.IH
      by (auto simp: claimTicket_Inr)
  qed
qed

lemma current_ge_1: "reachable keccak s \<Longrightarrow> 1 \<le> currentDrawId s"
  using reachable_draws [of keccak s] by (simp add: word_le_nat_alt unat_gt_0 Suc_le_eq)

lemma executed_iff:
  "reachable keccak s \<Longrightarrow> executed (draws s d) \<longleftrightarrow> 1 \<le> d \<and> d < currentDrawId s"
proof -
  assume "reachable keccak s"
  from reachable_draws [OF this]
  have "executed (draws s d) \<longleftrightarrow> d \<noteq> 0 \<and> d < currentDrawId s" by simp
  moreover have "d \<noteq> 0 \<longleftrightarrow> 1 \<le> d"
    by (simp add: word_le_nat_alt unat_gt_0 Suc_le_eq)
  ultimately show ?thesis by simp
qed

lemma open_draw_unique:
  assumes "reachable keccak s" and "1 \<le> d" and "d \<le> currentDrawId s"
  shows "\<not> executed (draws s d) \<longleftrightarrow> d = currentDrawId s"
proof -
  from reachable_draws [OF assms(1)]
  have ex: "executed (draws s d) \<longleftrightarrow> d \<noteq> 0 \<and> d < currentDrawId s" by simp
  from assms(2) have "d \<noteq> 0" by auto
  with ex assms(3) show ?thesis by (auto simp: word_le_less_eq)
qed

section \<open>What later transactions keep\<close>

lemma reachable_steps:
  "(step keccak)\<^sup>*\<^sup>* s s' \<Longrightarrow> reachable keccak s \<Longrightarrow> reachable keccak s'"
  by (induction rule: rtranclp_induct) (auto intro: reachable_step)

lemma step_ticket:
  assumes "step keccak s s'" and "i < length (playerTickets s p)"
  shows "i < length (playerTickets s' p) \<and>
     number (playerTickets s' p ! i) = number (playerTickets s p ! i) \<and>
     drawId (playerTickets s' p ! i) = drawId (playerTickets s p ! i) \<and>
     (claimed (playerTickets s p ! i) \<longrightarrow> claimed (playerTickets s' p ! i))"
  using assms(1)
proof cases
  case (step_buy sender msg_value encryptedNumber proof_ok j)
  then show ?thesis using assms(2)
    by (auto simp: buyTicket_Inr nth_append)
next
  case (step_draw env w)
  then show ?thesis using assms(2)
    by (auto simp: executeDraw_Inr)
next
  case (step_claim sender ticketIndex u)
  then show ?thesis using assms(2)
    by (auto simp: claimTicket_Inr nth_list_update)
qed

lemma steps_ticket:
  "(step keccak)\<^sup>*\<^sup>* s s' \<Longrightarrow> i < length (playerTickets s p) \<Longrightarrow>
     i < length (playerTickets s' p) \<and>
     number (playerTickets s' p ! i) = number (playerTickets s p ! i) \<and>
     drawId (playerTickets s' p ! i) = drawId (playerTickets s p ! i) \<and>
     (claimed (playerTickets s p ! i) \<longrightarrow> claimed (playerTickets s' p ! i))"
proof (induction rule: rtranclp_induct)
  case base
  show ?case using base by simp
next
  case (step y z)
  from step.IH [OF step.prems] have l: "i < length (playerTickets y p)" by simp
  from step_ticket [OF step.hyps(2) l] step.IH [OF step.prems] show ?case by simp
qed

lemma step_draw_kept:
  assumes "step keccak s s'" and "reachable keccak s"
  shows "currentDrawId s \<le> currentDrawId s' \<and>
     (executed (draws s d) \<longrightarrow> draws s' d = draws s d)"
  using assms(1)
proof cases
  case (step_buy sender msg_value encryptedNumber proof_ok j)
  then show ?thesis
    by (auto simp: buyTicket_Inr ensureScore_def Let_def)
next
  case (step_claim sender ticketIndex u)
  then show ?thesis
    by (auto simp: claimTicket_Inr)
next
  case (step_draw env w)
  let ?c = "currentDrawId s"
  from step_draw have c: "?c \<noteq> - 1" and cur: "currentDrawId s' = ?c + 1"
    and dr: "draws s' = (draws s)
               (?c := \<lparr>winningNumber = w, executedAt = timestamp env, executed = True\<rparr>,
                ?c + 1 := \<lparr>winningNumber = 0, executedAt = timestamp env, executed = False\<rparr>)"
    by (auto simp: executeDraw_Inr)
  from reachable_draws [OF assms(2)]
  have ex: "\<And>d. executed (draws s d) \<longleftrightarrow> d \<noteq> 0 \<and> d < ?c" by simp
  have le: "?c \<le> currentDrawId s'"
    using less_succ [OF c] by (simp add: cur)
  have "draws s' d = draws s d" if "executed (draws s d)"
  proof -
    from that ex have "d < ?c" by simp
    then have "d \<noteq> ?c" "d \<noteq> ?c + 1"
      using less_succ [OF c] by auto
    then show ?thesis by (simp add: dr)
  qed
  with le show ?thesis by simp
qed

lemma steps_draw_kept:
  "(step keccak)\<^sup>*\<^sup>* s s' \<Longrightarrow> reachable keccak s \<Longrightarrow>
     currentDrawId s \<le> currentDrawId s' \<and>
     (executed (draws s d) \<longrightarrow> draws s' d = draws s d)"
proof (induction rule: rtranclp_induct)
  case base
  show ?case by simp
next
  case (step y z)
  from reachable_steps [OF step.hyps(1) step.prems] have r: "reachable keccak y" .
  from step_draw_kept [OF step.hyps(2) r, of d] step.IH [OF step.prems]
  show ?case by auto
qed

section \<open>The concrete run, call by call\<close>

lemmas call_defs =
  constructor_def buyTicket_def executeDraw_def claimTicket_def ensureScore_def
  generateWinningNumber_def FHE_fromExternal_def FHE_asEuint8_def FHE_asEuint32_def
  FHE_eq_def FHE_add_def FHE_select_def zero_Ticket_def MAX_NUMBER_def MIN_NUMBER_def
  WIN_REWARD_def Let_def

lemmas demo_defs =
  demo_open_def demo_bought1_def demo_bought2_def demo_drawn_def demo_claimed1_def
  demo_claimed2_def demo_keccak_def demo_env_def

lemma demo_open_reachable: "reachable demo_keccak demo_open"
  unfolding demo_open_def by (rule reachable_init)

lemma demo_bought1_result:
  "buyTicket alice TICKET_PRICE 8 True demo_open = Inr (demo_bought1, 0)"
  by (simp add: demo_defs call_defs)

lemma demo_bought2_result:
  "buyTicket alice TICKET_PRICE 3 True demo_bought1 = Inr (demo_bought2, 1)"
  by (simp add: demo_defs call_defs)

lemma demo_drawn_result:
  "executeDraw demo_keccak demo_env demo_bought2 = Inr (demo_drawn, 8)"
  by (simp add: demo_drawn_def demo_bought2_def demo_bought1_def demo_open_def
      executeDraw_def buyTicket_def ensureScore_def constructor_def generateWinningNumber_def
      FHE_fromExternal_def FHE_asEuint32_def
      demo_keccak_def demo_env_def Let_def MAX_NUMBER_def MIN_NUMBER_def)

lemma demo_claimed1_result:
  "claimTicket alice 0 demo_drawn = Inr (demo_claimed1, ())"
  by (simp add: demo_defs call_defs)

lemma demo_claimed2_result:
  "claimTicket alice 1 demo_claimed1 = Inr (demo_claimed2, ())"
  by (simp add: demo_defs call_defs)

lemma demo_reachable:
  "reachable demo_keccak demo_bought1" "reachable demo_keccak demo_bought2"
  "reachable demo_keccak demo_drawn" "reachable demo_keccak demo_claimed1"
  "reachable demo_keccak demo_claimed2"
proof -
  show 1: "reachable demo_keccak demo_bought1"
    using demo_open_reachable step_buy [OF demo_bought1_result] by (rule reachable_step)
  show 2: "reachable demo_keccak demo_bought2"
    using 1 step_buy [OF demo_bought2_result] by (rule reachable_step)
  show 3: "reachable demo_keccak demo_drawn"
    using 2 step_draw [OF demo_drawn_result] by (rule reachable_step)
  show 4: "reachable demo_keccak demo_claimed1"
    using 3 step_claim [OF demo_claimed1_result] by (rule reachable_step)
  show "reachable demo_keccak demo_claimed2"
    using 4 step_claim [OF demo_claimed2_result] by (rule reachable_step)
qed

lemma demo_later:
  "(step demo_keccak)\<^sup>*\<^sup>* demo_claimed1 demo_claimed2"
  "(step demo_keccak)\<^sup>*\<^sup>* demo_bought2 demo_claimed2"
  "(step demo_keccak)\<^sup>*\<^sup>* demo_drawn demo_claimed2"
proof -
  note a = step_draw [OF demo_drawn_result]
  note b = step_claim [OF demo_claimed1_result, where keccak = demo_keccak]
  note c = step_claim [OF demo_claimed2_result, where keccak = demo_keccak]
  show "(step demo_keccak)\<^sup>*\<^sup>* demo_claimed1 demo_claimed2"
    using c by (rule r_into_rtranclp)
  show "(step demo_keccak)\<^sup>*\<^sup>* demo_bought2 demo_claimed2"
    using a b c by (meson rtranclp.rtrancl_into_rtrancl rtranclp.rtrancl_refl)
  show "(step demo_keccak)\<^sup>*\<^sup>* demo_drawn demo_claimed2"
    using b c by (meson rtranclp.rtrancl_into_rtrancl rtranclp.rtrancl_refl)
qed

lemma demo_bought2_fields:
  "playerTickets demo_bought2 alice =
     [\<lparr>number = Encrypted 8, drawId = 1, claimed = False\<rparr>,
      \<lparr>number = Encrypted 3, drawId = 1, claimed = False\<rparr>]"
  "playerScores demo_bought2 alice = Encrypted 0"
  "currentDrawId demo_bought2 = 1"
  "draws demo_bought2 1 = \<lparr>winningNumber = 0, executedAt = 1000, executed = False\<rparr>"
  by (simp_all add: demo_defs call_defs)

lemma demo_drawn_fields:
  "playerTickets demo_drawn alice =
     [\<lparr>number = Encrypted 8, drawId = 1, claimed = False\<rparr>,
      \<lparr>number = Encrypted 3, drawId = 1, claimed = False\<rparr>]"
  "playerScores demo_drawn alice = Encrypted 0"
  "currentDrawId demo_drawn = 2"
  "draws demo_drawn 1 = \<lparr>winningNumber = 8, executedAt = 1000, executed = True\<rparr>"
  "draws demo_drawn 2 = \<lparr>winningNumber = 0, executedAt = 1000, executed = False\<rparr>"
  by (simp_all add: demo_defs call_defs)

lemma demo_claimed1_fields:
  "playerTickets demo_claimed1 alice =
     [\<lparr>number = Encrypted 8, drawId = 1, claimed = True\<rparr>,
      \<lparr>number = Encrypted 3, drawId = 1, claimed = False\<rparr>]"
  "playerScores demo_claimed1 alice = Encrypted 10"
  "currentDrawId demo_claimed1 = 2"
  "draws demo_claimed1 1 = \<lparr>winningNumber = 8, executedAt = 1000, executed = True\<rparr>"
  by (simp_all add: demo_defs call_defs)

lemma demo_claimed2_fields:
  "playerTickets demo_claimed2 alice =
     [\<lparr>number = Encrypted 8, drawId = 1, claimed = True\<rparr>,
      \<lparr>number = Encrypted 3, drawId = 1, claimed = True\<rparr>]"
  "playerScores demo_claimed2 alice = Encrypted 10"
  "currentDrawId demo_claimed2 = 2"
  by (simp_all add: demo_defs call_defs)

section \<open>The draw counter at its last value\<close>

lemma executeDraw_times_reachable:
  "n < 2 ^ 256 - 1 \<Longrightarrow>
     reachable keccak (executeDraw_times keccak env n (constructor env0)) \<and>
     currentDrawId (executeDraw_times keccak env n (constructor env0)) = of_nat (Suc n)"
proof (induction n)
  case 0
  show ?case by (simp add: reachable_init) (simp add: constructor_def)
next
  case (Suc n)
  let ?s = "executeDraw_times keccak env n (constructor env0)"
  from Suc have r: "reachable keccak ?s" and c: "currentDrawId ?s = of_nat (Suc n)"
    by simp_all
  have "unat (of_nat (Suc n) :: uint256) = Suc n"
    using Suc.prems by (simp add: unat_of_nat del: of_nat_Suc)
  moreover have "unat (- 1 :: uint256) = 2 ^ 256 - 1"
    by (simp add: unsigned_minus_1_eq_mask mask_eq_exp_minus_1)
  ultimately have m: "currentDrawId ?s \<noteq> - 1"
    using Suc.prems c by (metis nat_neq_iff)
  from reachable_draws [OF r] have e: "\<not> executed (draws ?s (currentDrawId ?s))"
    by simp
  from m e obtain s' w where ok: "executeDraw keccak env ?s = Inr (s', w)"
    by (simp add: executeDraw_Inr)
  then have c': "currentDrawId s' = currentDrawId ?s + 1"
    by (auto simp: executeDraw_Inr)
  from ok have "step keccak ?s s'" by (rule step_draw)
  with r have "reachable keccak s'" by (rule reachable_step)
  moreover have "executeDraw_times keccak env (Suc n) (constructor env0) = s'"
    using ok by (simp add: Let_def)
  ultimately show ?case using c c' by simp
qed

lemma demo_last_draw_facts:
  "reachable demo_keccak demo_last_draw" "currentDrawId demo_last_draw = - 1"
proof -
  have "(2::nat) ^ 256 - 2 < 2 ^ 256 - 1" by simp
  from executeDraw_times_reachable [OF this, of demo_keccak demo_env demo_env]
  show "reachable demo_keccak demo_last_draw" "currentDrawId demo_last_draw = - 1"
    by (simp_all add: demo_last_draw_def demo_open_def del: of_nat_Suc)
qed

section \<open>A score near the end of its range\<close>

lemma state_after_success:
  "f = Inr (s', r) \<Longrightarrow> state_after s f = s'"
  by simp

lemma buyTicket_times_run:
  "reachable keccak (buyTicket_times p v n (constructor env)) \<and>
   playerTickets (buyTicket_times p v n (constructor env)) p =
     replicate n \<lparr>number = Encrypted v, drawId = 1, claimed = False\<rparr> \<and>
   currentDrawId (buyTicket_times p v n (constructor env)) = 1 \<and>
   (0 < n \<longrightarrow> playerScores (buyTicket_times p v n (constructor env)) p = Encrypted 0)"
proof (induction n)
  case 0
  show ?case by (simp add: reachable_init) (simp add: constructor_def)
next
  case (Suc n)
  let ?s = "buyTicket_times p v n (constructor env)"
  let ?T = "\<lparr>number = Encrypted v, drawId = 1, claimed = False\<rparr>"
  from Suc have r: "reachable keccak ?s" and tk: "playerTickets ?s p = replicate n ?T"
    and c: "currentDrawId ?s = 1" and sc: "0 < n \<Longrightarrow> playerScores ?s p = Encrypted 0"
    by simp_all
  from reachable_draws [OF r] c have e: "\<not> executed (draws ?s (currentDrawId ?s))"
    by simp
  then obtain s' i where ok: "buyTicket p TICKET_PRICE v True ?s = Inr (s', i)"
    by (simp add: buyTicket_Inr)
  have nx: "buyTicket_times p v (Suc n) (constructor env) = s'"
    using ok by (simp add: Let_def)
  from ok have "step keccak ?s s'" by (rule step_buy)
  with r have r': "reachable keccak s'" by (rule reachable_step)
  from ok tk c have tk': "playerTickets s' p = replicate (Suc n) ?T"
    by (simp add: buyTicket_Inr replicate_append_same)
  from ok c have c': "currentDrawId s' = 1"
    by (auto simp: buyTicket_Inr ensureScore_def Let_def)
  have init: "scoreInitialized ?s p \<longleftrightarrow> 0 < n"
    using reachable_initialized [OF r, of p] tk by simp
  have sc': "playerScores s' p = Encrypted 0"
  proof (cases "0 < n")
    case True
    with init sc ok show ?thesis
      by (auto simp: buyTicket_Inr ensureScore_def Let_def)
  next
    case False
    with init ok show ?thesis
      by (auto simp: buyTicket_Inr ensureScore_def Let_def FHE_asEuint32_def)
  qed
  from r' tk' c' sc' show ?case by (simp only: nx) simp
qed

lemma claim_next_ticket:
  "n < m \<Longrightarrow>
     (replicate n (T\<lparr>claimed := True\<rparr>) @ replicate (m - n) T) ! n = T \<and>
     (replicate n (T\<lparr>claimed := True\<rparr>) @ replicate (m - n) T)[n := T\<lparr>claimed := True\<rparr>] =
       replicate (Suc n) (T\<lparr>claimed := True\<rparr>) @ replicate (m - Suc n) T"
proof -
  assume "n < m"
  then obtain k where k: "m - n = Suc k" "m - Suc n = k"
    by (cases "m - n") auto
  show ?thesis
    by (simp add: k nth_append list_update_append replicate_append_same)
qed

lemma claimTicket_times_run:
  assumes r: "reachable keccak s"
    and tk: "playerTickets s p = replicate m \<lparr>number = Encrypted v, drawId = d, claimed = False\<rparr>"
    and ex: "executed (draws s d)" and win: "winningNumber (draws s d) = v"
    and sc: "playerScores s p = Encrypted x"
  shows "n \<le> m \<Longrightarrow>
     reachable keccak (claimTicket_times p n s) \<and>
     playerTickets (claimTicket_times p n s) p =
       replicate n \<lparr>number = Encrypted v, drawId = d, claimed = True\<rparr> @
       replicate (m - n) \<lparr>number = Encrypted v, drawId = d, claimed = False\<rparr> \<and>
     draws (claimTicket_times p n s) = draws s \<and>
     playerScores (claimTicket_times p n s) p = Encrypted (x + of_nat n * 10)"
proof (induction n)
  case 0
  show ?case using r tk sc by simp
next
  case (Suc n)
  let ?s = "claimTicket_times p n s"
  let ?T = "\<lparr>number = Encrypted v, drawId = d, claimed = False\<rparr>"
  from Suc have lt: "n < m" by simp
  from Suc have r': "reachable keccak ?s"
    and tk': "playerTickets ?s p = replicate n (?T\<lparr>claimed := True\<rparr>) @ replicate (m - n) ?T"
    and dr: "draws ?s = draws s"
    and sc': "playerScores ?s p = Encrypted (x + of_nat n * 10)"
    by simp_all
  note nx = claim_next_ticket [OF lt, of ?T]
  from nx tk' have at: "playerTickets ?s p ! n = ?T" by simp
  from tk' lt have len: "n < length (playerTickets ?s p)" by simp
  from len at ex dr obtain s' where ok: "claimTicket p n ?s = Inr (s', ())"
    by (simp add: claimTicket_Inr)
  have st: "claimTicket_times p (Suc n) s = s'"
    using ok by (simp add: Let_def)
  from ok have "step keccak ?s s'" by (rule step_claim)
  with r' have a: "reachable keccak s'" by (rule reachable_step)
  from ok at tk' nx have b: "playerTickets s' p =
      replicate (Suc n) \<lparr>number = Encrypted v, drawId = d, claimed = True\<rparr> @
      replicate (m - Suc n) ?T"
    by (simp add: claimTicket_Inr)
  from ok dr have c: "draws s' = draws s"
    by (simp add: claimTicket_Inr)
  from ok at dr win sc' have e: "playerScores s' p = Encrypted (x + of_nat (Suc n) * 10)"
    by (simp add: claimTicket_Inr algebra_simps)
  from a b c e show ?case by (simp only: st)
qed


lemma demo_many_bought_facts:
  "reachable demo_keccak demo_many_bought"
  "playerTickets demo_many_bought alice =
     replicate 429496730 \<lparr>number = Encrypted 8, drawId = 1, claimed = False\<rparr>"
  "currentDrawId demo_many_bought = 1"
  "playerScores demo_many_bought alice = Encrypted 0"
  using buyTicket_times_run [of demo_keccak alice 8 429496730 demo_env]
  by (simp_all add: demo_many_bought_def demo_open_def)

lemma demo_many_drawn_facts:
  "reachable demo_keccak demo_many_drawn"
  "playerTickets demo_many_drawn alice =
     replicate 429496730 \<lparr>number = Encrypted 8, drawId = 1, claimed = False\<rparr>"
  "draws demo_many_drawn 1 = \<lparr>winningNumber = 8, executedAt = 1000, executed = True\<rparr>"
  "playerScores demo_many_drawn alice = Encrypted 0"
proof -
  note b = demo_many_bought_facts
  from reachable_draws [OF b(1)] b(3)
  have e: "\<not> executed (draws demo_many_bought (currentDrawId demo_many_bought))"
    by simp
  then obtain s' w where ok: "executeDraw demo_keccak demo_env demo_many_bought = Inr (s', w)"
    using b(3) by (simp add: executeDraw_Inr)
  then have eq: "demo_many_drawn = s'"
    by (simp add: demo_many_drawn_def)
  from ok have "step demo_keccak demo_many_bought s'" by (rule step_draw)
  with b(1) have "reachable demo_keccak s'" by (rule reachable_step)
  then show "reachable demo_keccak demo_many_drawn" by (simp only: eq)
  from ok have w: "w = 8"
    by (simp add: executeDraw_Inr generateWinningNumber_def b(3) demo_keccak_def demo_env_def
        MAX_NUMBER_def MIN_NUMBER_def)
  from ok b(2) show "playerTickets demo_many_drawn alice =
     replicate 429496730 \<lparr>number = Encrypted 8, drawId = 1, claimed = False\<rparr>"
    by (simp add: eq executeDraw_Inr)
  from ok w b(3) show "draws demo_many_drawn 1 =
      \<lparr>winningNumber = 8, executedAt = 1000, executed = True\<rparr>"
    by (simp add: eq executeDraw_Inr demo_env_def)
  from ok b(4) show "playerScores demo_many_drawn alice = Encrypted 0"
    by (simp add: eq executeDraw_Inr)
qed

lemma demo_high_score_facts:
  "reachable demo_keccak demo_high_score"
  "playerTickets demo_high_score alice =
     replicate 429496729 \<lparr>number = Encrypted 8, drawId = 1, claimed = True\<rparr> @
     [\<lparr>number = Encrypted 8, drawId = 1, claimed = False\<rparr>]"
  "draws demo_high_score 1 = \<lparr>winningNumber = 8, executedAt = 1000, executed = True\<rparr>"
  "playerScores demo_high_score alice = Encrypted 4294967290"
proof -
  note d = demo_many_drawn_facts
  have le: "(429496729::nat) \<le> 429496730" by simp
  from claimTicket_times_run [OF d(1) d(2) _ _ d(4) le] d(3)
  have f: "reachable demo_keccak demo_high_score"
    "playerTickets demo_high_score alice =
       replicate 429496729 \<lparr>number = Encrypted 8, drawId = 1, claimed = True\<rparr> @
       replicate (429496730 - 429496729) \<lparr>number = Encrypted 8, drawId = 1, claimed = False\<rparr>"
    "draws demo_high_score = draws demo_many_drawn"
    "playerScores demo_high_score alice = Encrypted (0 + of_nat 429496729 * 10)"
    by (simp_all add: demo_high_score_def)
  show "reachable demo_keccak demo_high_score" by (rule f(1))
  show "playerTickets demo_high_score alice =
     replicate 429496729 \<lparr>number = Encrypted 8, drawId = 1, claimed = True\<rparr> @
     [\<lparr>number = Encrypted 8, drawId = 1, claimed = False\<rparr>]"
    using f(2) by simp
  show "draws demo_high_score 1 = \<lparr>winningNumber = 8, executedAt = 1000, executed = True\<rparr>"
    using f(3) d(3) by simp
  show "playerScores demo_high_score alice = Encrypted 4294967290"
    using f(4) by simp
qed

lemma demo_wrapped_result:
  "claimTicket alice 429496729 demo_high_score = Inr (demo_wrapped, ())"
  "playerScores demo_wrapped alice = Encrypted 4"
proof -
  note h = demo_high_score_facts
  have at: "playerTickets demo_high_score alice ! 429496729 =
      \<lparr>number = Encrypted 8, drawId = 1, claimed = False\<rparr>"
    by (simp add: h(2) nth_append)
  have len: "429496729 < length (playerTickets demo_high_score alice)"
    by (simp add: h(2))
  from at len h(3) obtain s' where ok: "claimTicket alice 429496729 demo_high_score = Inr (s', ())"
    by (simp add: claimTicket_Inr)
  then have eq: "demo_wrapped = s'" by (simp add: demo_wrapped_def)
  from ok show "claimTicket alice 429496729 demo_high_score = Inr (demo_wrapped, ())"
    by (simp only: eq)
  from ok at h(3) h(4) show "playerScores demo_wrapped alice = Encrypted 4"
    by (simp add: eq claimTicket_Inr)
qed

section \<open>The fresh contract\<close>

text \<open>
  Claim C8. After construction the current draw id is 1, draw 1 is stored unexecuted, no
  other draw entry has been written, and every score reads as the uninitialised handle. In
  any reachable state a player who holds no ticket still has the uninitialised score, and
  that player's first successful purchase sets it to an encryption of zero.
\<close>

theorem fresh_contract:
  "currentDrawId (constructor env) = 1 \<and>
   getDraw (constructor env) 1 =
     Inr \<lparr>winningNumber = 0, executedAt = timestamp env, executed = False\<rparr> \<and>
   (d \<noteq> 1 \<longrightarrow> draws (constructor env) d = zero_Draw) \<and>
   getScore (constructor env) p = Inr Uninitialized \<and>
   (reachable keccak s \<and> totalTickets s p = Inr 0 \<longrightarrow>
      getScore s p = Inr Uninitialized \<and>
      (buyTicket p msg_value encryptedNumber proof_ok s = Inr (s', i) \<longrightarrow>
         getScore s' p = Inr (Encrypted 0)))"
proof -
  have a: "getScore s p = Inr Uninitialized \<and>
      (buyTicket p msg_value encryptedNumber proof_ok s = Inr (s', i) \<longrightarrow>
         getScore s' p = Inr (Encrypted 0))"
    if "reachable keccak s \<and> totalTickets s p = Inr 0"
  proof -
    from that have r: "reachable keccak s" and e: "playerTickets s p = []"
      by (simp_all add: totalTickets_def)
    from reachable_initialized [OF r, of p] e have n: "\<not> scoreInitialized s p" by simp
    with reachable_scores [OF r, of p] have "playerScores s p = Uninitialized" by simp
    then show ?thesis using n
      by (auto simp: getScore_def buyTicket_Inr ensureScore_def FHE_asEuint32_def Let_def)
  qed
  show ?thesis using a
    by (simp add: constructor_def getDraw_def getScore_def zero_Draw_def)
qed

theorem fresh_contract_witness:
  "currentDrawId demo_open = 1 \<and>
   getDraw demo_open 1 = Inr \<lparr>winningNumber = 0, executedAt = 1000, executed = False\<rparr> \<and>
   draws demo_open 2 = zero_Draw \<and>
   reachable demo_keccak demo_open \<and>
   totalTickets demo_open alice = Inr 0 \<and>
   getScore demo_open alice = Inr Uninitialized \<and>
   buyTicket alice TICKET_PRICE 8 True demo_open = Inr (demo_bought1, 0) \<and>
   getScore demo_bought1 alice = Inr (Encrypted 0)"
proof -
  have t: "totalTickets demo_open alice = Inr 0"
    by (simp add: totalTickets_def demo_open_def constructor_def)
  from fresh_contract [of demo_env 2 alice demo_keccak demo_open TICKET_PRICE 8 True demo_bought1 0]
    demo_open_reachable t demo_bought1_result
  show ?thesis by (simp add: demo_open_def demo_env_def)
qed

section \<open>Buying a ticket\<close>

text \<open>
  Claim C5. A purchase whose payment is below or above \<^verbatim>\<open>TICKET_PRICE\<close> reverts with
  "Invalid ticket price" and leaves the state as it was: no ticket, the same ticket count,
  no score initialised. A purchase that succeeds paid exactly the price.
\<close>

theorem buyTicket_invalid_payment:
  "(msg_value < TICKET_PRICE \<or> TICKET_PRICE < msg_value \<longrightarrow>
      buyTicket sender msg_value encryptedNumber proof_ok s = Inl InvalidTicketPrice \<and>
      state_after s (buyTicket sender msg_value encryptedNumber proof_ok s) = s \<and>
      totalTickets (state_after s (buyTicket sender msg_value encryptedNumber proof_ok s)) p =
        totalTickets s p \<and>
      getTickets (state_after s (buyTicket sender msg_value encryptedNumber proof_ok s)) p =
        getTickets s p \<and>
      getScore (state_after s (buyTicket sender msg_value encryptedNumber proof_ok s)) p =
        getScore s p \<and>
      scoreInitialized (state_after s (buyTicket sender msg_value encryptedNumber proof_ok s)) p =
        scoreInitialized s p) \<and>
   (buyTicket sender msg_value encryptedNumber proof_ok s = Inr (s', i) \<longrightarrow>
      msg_value = TICKET_PRICE)"
  by (auto simp: buyTicket_def)

theorem buyTicket_invalid_payment_witness:
  "TICKET_PRICE < TICKET_PRICE + 1 \<and>
   buyTicket alice (TICKET_PRICE + 1) 8 True demo_open = Inl InvalidTicketPrice \<and>
   state_after demo_open (buyTicket alice (TICKET_PRICE + 1) 8 True demo_open) = demo_open \<and>
   TICKET_PRICE - 1 < TICKET_PRICE \<and>
   buyTicket alice (TICKET_PRICE - 1) 8 True demo_open = Inl InvalidTicketPrice \<and>
   state_after demo_open (buyTicket alice (TICKET_PRICE - 1) 8 True demo_open) = demo_open \<and>
   buyTicket alice TICKET_PRICE 8 True demo_open = Inr (demo_bought1, 0)"
proof -
  have gt: "TICKET_PRICE < TICKET_PRICE + 1" and lt: "TICKET_PRICE - 1 < TICKET_PRICE"
    by (simp_all add: TICKET_PRICE_def)
  have ok: "buyTicket alice TICKET_PRICE 8 True demo_open = Inr (demo_bought1, 0)"
    by (simp add: demo_bought1_def demo_open_def buyTicket_def constructor_def
        ensureScore_def FHE_fromExternal_def Let_def)
  from gt lt ok
    buyTicket_invalid_payment [of "TICKET_PRICE + 1" alice 8 True demo_open alice demo_bought1 0]
    buyTicket_invalid_payment [of "TICKET_PRICE - 1" alice 8 True demo_open alice demo_bought1 0]
  show ?thesis by simp
qed

text \<open>
  Claim C6. A successful purchase returns the sender's ticket count before the call as the
  new ticket's index, makes the count one larger, and stores at that index a ticket on the
  current (unexecuted) draw with \<^verbatim>\<open>claimed = false\<close>; the tickets of every other player
  stay as they were. A failed purchase changes no ticket count.
\<close>

theorem buyTicket_appends:
  "(buyTicket sender msg_value encryptedNumber proof_ok s = Inr (s', i) \<longrightarrow>
      i = length (playerTickets s sender) \<and>
      totalTickets s sender = Inr i \<and>
      totalTickets s' sender = Inr (i + 1) \<and>
      playerTickets s' sender = playerTickets s sender @
        [\<lparr>number = Encrypted encryptedNumber, drawId = currentDrawId s, claimed = False\<rparr>] \<and>
      playerTickets s' sender ! i =
        \<lparr>number = Encrypted encryptedNumber, drawId = currentDrawId s, claimed = False\<rparr> \<and>
      \<not> executed (draws s (currentDrawId s)) \<and>
      currentDrawId s' = currentDrawId s \<and>
      draws s' = draws s \<and>
      (q \<noteq> sender \<longrightarrow> playerTickets s' q = playerTickets s q) \<and>
      events s' = events s @ [TicketPurchased sender (currentDrawId s) i]) \<and>
   (buyTicket sender msg_value encryptedNumber proof_ok s = Inl e \<longrightarrow>
      totalTickets (state_after s (buyTicket sender msg_value encryptedNumber proof_ok s)) q =
        totalTickets s q)"
  by (auto simp: buyTicket_Inr totalTickets_def ensureScore_def Let_def)

theorem buyTicket_appends_witness:
  "buyTicket alice TICKET_PRICE 3 True demo_bought1 = Inr (demo_bought2, 1) \<and>
   totalTickets demo_bought1 alice = Inr 1 \<and>
   totalTickets demo_bought2 alice = Inr 2 \<and>
   playerTickets demo_bought2 alice =
     [\<lparr>number = Encrypted 8, drawId = 1, claimed = False\<rparr>,
      \<lparr>number = Encrypted 3, drawId = 1, claimed = False\<rparr>] \<and>
   playerTickets demo_bought2 bob = [] \<and>
   buyTicket bob TICKET_PRICE 3 False demo_bought1 = Inl InvalidProof \<and>
   totalTickets (state_after demo_bought1 (buyTicket bob TICKET_PRICE 3 False demo_bought1)) bob =
     Inr 0"
proof -
  have ok: "buyTicket alice TICKET_PRICE 3 True demo_bought1 = Inr (demo_bought2, 1)"
    by (simp add: demo_bought2_def demo_bought1_def demo_open_def buyTicket_def constructor_def
        ensureScore_def FHE_fromExternal_def Let_def)
  have bad: "buyTicket bob TICKET_PRICE 3 False demo_bought1 = Inl InvalidProof"
    by (simp add: demo_bought1_def demo_open_def buyTicket_def constructor_def
        ensureScore_def FHE_fromExternal_def Let_def)
  have ne: "bob \<noteq> alice" by (simp add: alice_def bob_def)
  have old: "playerTickets demo_bought1 alice = [\<lparr>number = Encrypted 8, drawId = 1, claimed = False\<rparr>]"
    "playerTickets demo_bought1 bob = []" "currentDrawId demo_bought1 = 1"
    using ne by (simp_all add: demo_bought1_def demo_open_def buyTicket_def constructor_def
        ensureScore_def FHE_fromExternal_def Let_def zero_Ticket_def)
  from ok bad ne old
    buyTicket_appends [of alice TICKET_PRICE 3 True demo_bought1 demo_bought2 1 bob]
    buyTicket_appends [of bob TICKET_PRICE 3 False demo_bought1 demo_bought2 1 bob InvalidProof]
  show ?thesis by (simp add: totalTickets_def)
qed

section \<open>The winning number\<close>

lemma generateWinningNumber_unat:
  "unat (generateWinningNumber keccak env s) =
     unat (keccak (prevrandao env, prev_blockhash env, this_address env, currentDrawId s,
                   timestamp env)) mod 9 + 1"
proof -
  define r where
    "r = keccak (prevrandao env, prev_blockhash env, this_address env, currentDrawId s,
                 timestamp env)"
  have m: "unat (r mod 9) = unat r mod 9"
    by (simp add: unat_mod)
  have lt: "unat r mod 9 < 9" by simp
  have "unat (r mod 9 + 1) = unat r mod 9 + 1"
    using lt m by (simp add: unat_add_lem [THEN iffD1])
  then have "unat (ucast (r mod 9 + 1) :: uint8) = unat r mod 9 + 1"
    using lt by (simp add: unsigned_ucast_eq take_bit_eq_mod)
  then show ?thesis
    by (simp add: generateWinningNumber_def MAX_NUMBER_def MIN_NUMBER_def r_def Let_def)
qed

text \<open>
  Claim C7. The winning number is the digest of the block data and the current draw id,
  reduced modulo 9, plus 1: whatever the digest, it lies in 1..9. A successful
  \<^verbatim>\<open>executeDraw\<close> returns that number, stores it in the draw it resolves and emits it in
  the \<^verbatim>\<open>DrawExecuted\<close> event.
\<close>

theorem winning_number_in_range:
  "unat (generateWinningNumber keccak env s) =
     unat (keccak (prevrandao env, prev_blockhash env, this_address env, currentDrawId s,
                   timestamp env)) mod 9 + 1 \<and>
   1 \<le> generateWinningNumber keccak env s \<and> generateWinningNumber keccak env s \<le> 9 \<and>
   (executeDraw keccak env s = Inr (s', w) \<longrightarrow>
      w = generateWinningNumber keccak env s \<and>
      draws s' (currentDrawId s) =
        \<lparr>winningNumber = w, executedAt = timestamp env, executed = True\<rparr> \<and>
      events s' = events s @ [DrawExecuted (currentDrawId s) w])"
proof -
  let ?w = "generateWinningNumber keccak env s"
  note u = generateWinningNumber_unat [of keccak env s]
  have "1 \<le> unat ?w" "unat ?w \<le> 9"
    using u by simp_all
  then have r: "1 \<le> ?w" "?w \<le> 9"
    by (simp_all add: word_le_nat_alt)
  have "executeDraw keccak env s = Inr (s', w) \<Longrightarrow>
      w = ?w \<and>
      draws s' (currentDrawId s) =
        \<lparr>winningNumber = w, executedAt = timestamp env, executed = True\<rparr> \<and>
      events s' = events s @ [DrawExecuted (currentDrawId s) w]"
    by (auto simp: executeDraw_Inr)
  with u r show ?thesis by blast
qed

theorem winning_number_in_range_witness:
  "executeDraw demo_keccak demo_env demo_bought2 = Inr (demo_drawn, 8) \<and>
   unat (generateWinningNumber demo_keccak demo_env demo_bought2) = 7 mod 9 + 1 \<and>
   draws demo_drawn 1 = \<lparr>winningNumber = 8, executedAt = 1000, executed = True\<rparr> \<and>
   events demo_drawn = [TicketPurchased alice 1 0, TicketPurchased alice 1 1, DrawExecuted 1 8]"
  using winning_number_in_range [of demo_keccak demo_env demo_bought2 demo_drawn 8]
    demo_drawn_result
  by (simp add: demo_bought2_def demo_bought1_def demo_open_def
      buyTicket_def ensureScore_def constructor_def
      FHE_fromExternal_def FHE_asEuint32_def
      demo_keccak_def demo_env_def Let_def)

section \<open>The sequence of draws\<close>

lemma executeDraw_opens_next:
  assumes "executeDraw keccak env s = Inr (s', w)"
  shows "\<not> executed (draws s (currentDrawId s)) \<and>
        draws s' (currentDrawId s) =
          \<lparr>winningNumber = w, executedAt = timestamp env, executed = True\<rparr> \<and>
        currentDrawId s' = currentDrawId s + 1 \<and>
        currentDrawId s < currentDrawId s' \<and>
        draws s' (currentDrawId s') =
          \<lparr>winningNumber = 0, executedAt = timestamp env, executed = False\<rparr>"
proof -
  from assms have c: "currentDrawId s \<noteq> - 1" and e: "\<not> executed (draws s (currentDrawId s))"
    and cur: "currentDrawId s' = currentDrawId s + 1"
    and dr: "draws s' = (draws s)
               (currentDrawId s :=
                  \<lparr>winningNumber = w, executedAt = timestamp env, executed = True\<rparr>,
                currentDrawId s + 1 :=
                  \<lparr>winningNumber = 0, executedAt = timestamp env, executed = False\<rparr>)"
    by (simp_all add: executeDraw_Inr)
  from less_succ [OF c] e show ?thesis
    by (simp add: cur dr)
qed

text \<open>
  Claim C3. The first draw id is 1. In every reachable state the current draw id is at
  least 1, the executed draws are exactly those with an id from 1 to below the current id,
  and so among the created draws (ids 1 up to the current id) the unexecuted one is exactly
  the draw at the current id. A successful \<^verbatim>\<open>executeDraw\<close> resolves the current
  draw, which was unexecuted, and in the same call makes the next id, strictly larger, the
  current one, with a fresh unexecuted draw stored there. Whatever transactions follow, the
  current id never decreases and an executed draw is never written again: it is not
  resolved a second time and its winning number stays.
\<close>

theorem one_open_draw:
  "reachable keccak s \<Longrightarrow>
     currentDrawId (constructor env0) = 1 \<and>
     1 \<le> currentDrawId s \<and>
     (\<forall>d. executed (draws s d) \<longleftrightarrow> 1 \<le> d \<and> d < currentDrawId s) \<and>
     (\<forall>d. 1 \<le> d \<and> d \<le> currentDrawId s \<longrightarrow>
        (\<not> executed (draws s d) \<longleftrightarrow> d = currentDrawId s)) \<and>
     (executeDraw keccak env s = Inr (s', w) \<longrightarrow>
        \<not> executed (draws s (currentDrawId s)) \<and>
        draws s' (currentDrawId s) =
          \<lparr>winningNumber = w, executedAt = timestamp env, executed = True\<rparr> \<and>
        currentDrawId s' = currentDrawId s + 1 \<and>
        currentDrawId s < currentDrawId s' \<and>
        draws s' (currentDrawId s') =
          \<lparr>winningNumber = 0, executedAt = timestamp env, executed = False\<rparr>) \<and>
     ((step keccak)\<^sup>*\<^sup>* s s'' \<longrightarrow>
        currentDrawId s \<le> currentDrawId s'' \<and>
        (executed (draws s d) \<longrightarrow> draws s'' d = draws s d))"
proof -
  assume r: "reachable keccak s"
  have a: "currentDrawId (constructor env0) = 1"
    by (simp add: constructor_def)
  have b: "1 \<le> currentDrawId s"
    using r by (rule current_ge_1)
  have x: "\<forall>d. executed (draws s d) \<longleftrightarrow> 1 \<le> d \<and> d < currentDrawId s"
    using r by (intro allI) (rule executed_iff)
  have c: "\<forall>d. 1 \<le> d \<and> d \<le> currentDrawId s \<longrightarrow>
        (\<not> executed (draws s d) \<longleftrightarrow> d = currentDrawId s)"
    using open_draw_unique [OF r] by (intro allI impI) (elim conjE)
  have d: "executeDraw keccak env s = Inr (s', w) \<longrightarrow>
        \<not> executed (draws s (currentDrawId s)) \<and>
        draws s' (currentDrawId s) =
          \<lparr>winningNumber = w, executedAt = timestamp env, executed = True\<rparr> \<and>
        currentDrawId s' = currentDrawId s + 1 \<and>
        currentDrawId s < currentDrawId s' \<and>
        draws s' (currentDrawId s') =
          \<lparr>winningNumber = 0, executedAt = timestamp env, executed = False\<rparr>"
    by (rule impI) (rule executeDraw_opens_next)
  have e: "(step keccak)\<^sup>*\<^sup>* s s'' \<longrightarrow>
        currentDrawId s \<le> currentDrawId s'' \<and>
        (executed (draws s d) \<longrightarrow> draws s'' d = draws s d)"
    using r by (intro impI) (rule steps_draw_kept)
  show ?thesis
    by (intro conjI a b x c d e)
qed

theorem one_open_draw_witness:
  "reachable demo_keccak demo_bought2 \<and>
   currentDrawId demo_bought2 = 1 \<and>
   \<not> executed (draws demo_bought2 1) \<and>
   executeDraw demo_keccak demo_env demo_bought2 = Inr (demo_drawn, 8) \<and>
   draws demo_drawn 1 = \<lparr>winningNumber = 8, executedAt = 1000, executed = True\<rparr> \<and>
   currentDrawId demo_drawn = 2 \<and>
   draws demo_drawn 2 = \<lparr>winningNumber = 0, executedAt = 1000, executed = False\<rparr> \<and>
   (step demo_keccak)\<^sup>*\<^sup>* demo_drawn demo_claimed2 \<and>
   draws demo_claimed2 1 = \<lparr>winningNumber = 8, executedAt = 1000, executed = True\<rparr> \<and>
   currentDrawId demo_drawn \<le> currentDrawId demo_claimed2"
proof -
  from one_open_draw [OF demo_reachable(2), of demo_env demo_env demo_drawn 8 demo_bought2 1]
    demo_drawn_result
  have a: "draws demo_drawn (currentDrawId demo_bought2) =
      \<lparr>winningNumber = 8, executedAt = timestamp demo_env, executed = True\<rparr>"
    "currentDrawId demo_drawn = currentDrawId demo_bought2 + 1"
    "draws demo_drawn (currentDrawId demo_drawn) =
      \<lparr>winningNumber = 0, executedAt = timestamp demo_env, executed = False\<rparr>"
    by blast+
  from one_open_draw [OF demo_reachable(3), of demo_env demo_env demo_drawn 8 demo_claimed2 1]
    demo_later(3)
  have b: "currentDrawId demo_drawn \<le> currentDrawId demo_claimed2"
    "executed (draws demo_drawn 1) \<longrightarrow> draws demo_claimed2 1 = draws demo_drawn 1"
    by blast+
  from a b demo_reachable(2) demo_drawn_result demo_later(3) show ?thesis
    by (simp add: demo_bought2_fields demo_env_def)
qed

section \<open>The current draw is open\<close>

text \<open>
  \<^verbatim>\<open>currentDrawId += 1\<close> is checked arithmetic. After \<open>2 ^ 256 - 2\<close> draws the
  counter holds \<open>2 ^ 256 - 1\<close>; the state is reachable, its current draw is open, and
  the next \<^verbatim>\<open>executeDraw\<close> reverts with the arithmetic panic, not with a success.
\<close>

theorem executeDraw_at_last_id_counterexample:
  "reachable demo_keccak demo_last_draw \<and>
   currentDrawId demo_last_draw = - 1 \<and>
   executeDraw demo_keccak demo_env demo_last_draw = Inl ArithmeticPanic"
proof -
  note f = demo_last_draw_facts
  from reachable_draws [OF f(1)] have "\<not> executed (draws demo_last_draw (currentDrawId demo_last_draw))"
    by simp
  with f show ?thesis
    by (simp add: executeDraw_def Let_def)
qed

text \<open>
  Claim C10, as amended. In every reachable state the current draw id is not 0 and the draw
  stored there is unexecuted. So neither \<^verbatim>\<open>executeDraw\<close> nor \<^verbatim>\<open>buyTicket\<close> ever fails
  its "Draw already executed" check; \<^verbatim>\<open>executeDraw\<close> succeeds unless the counter stands at
  \<open>2 ^ 256 - 1\<close>, where it reverts with the arithmetic panic; and a purchase with the
  exact price and a valid proof succeeds, bound to the current draw.
\<close>

theorem current_draw_open:
  "reachable keccak s \<Longrightarrow>
     currentDrawId s \<noteq> 0 \<and>
     \<not> executed (draws s (currentDrawId s)) \<and>
     executeDraw keccak env s \<noteq> Inl DrawAlreadyExecuted \<and>
     buyTicket sender msg_value encryptedNumber proof_ok s \<noteq> Inl DrawAlreadyExecuted \<and>
     (currentDrawId s \<noteq> - 1 \<longrightarrow> (\<exists>s' w. executeDraw keccak env s = Inr (s', w))) \<and>
     (currentDrawId s = - 1 \<longrightarrow> executeDraw keccak env s = Inl ArithmeticPanic) \<and>
     (msg_value = TICKET_PRICE \<and> proof_ok \<longrightarrow>
        (\<exists>s' i. buyTicket sender msg_value encryptedNumber proof_ok s = Inr (s', i) \<and>
           drawId (playerTickets s' sender ! i) = currentDrawId s))"
proof -
  assume r: "reachable keccak s"
  from reachable_draws [OF r] have c0: "currentDrawId s \<noteq> 0"
    and e: "\<not> executed (draws s (currentDrawId s))"
    by simp_all
  have d1: "executeDraw keccak env s \<noteq> Inl DrawAlreadyExecuted"
    using e by (simp add: executeDraw_def Let_def)
  have b1: "buyTicket sender msg_value encryptedNumber proof_ok s \<noteq> Inl DrawAlreadyExecuted"
    using e by (simp add: buyTicket_def Let_def split: option.splits)
  have d2: "currentDrawId s \<noteq> - 1 \<Longrightarrow> \<exists>s' w. executeDraw keccak env s = Inr (s', w)"
    using e by (simp add: executeDraw_Inr)
  have d3: "currentDrawId s = - 1 \<Longrightarrow> executeDraw keccak env s = Inl ArithmeticPanic"
    using e by (simp add: executeDraw_def Let_def)
  have b2: "\<exists>s' i. buyTicket sender msg_value encryptedNumber proof_ok s = Inr (s', i) \<and>
           drawId (playerTickets s' sender ! i) = currentDrawId s"
    if "msg_value = TICKET_PRICE \<and> proof_ok"
    using e that by (simp add: buyTicket_Inr)
  from c0 e d1 b1 d2 d3 b2 show ?thesis by blast
qed

theorem current_draw_open_witness:
  "reachable demo_keccak demo_bought1 \<and>
   reachable demo_keccak demo_bought2 \<and>
   currentDrawId demo_bought2 = 1 \<and>
   \<not> executed (draws demo_bought2 1) \<and>
   executeDraw demo_keccak demo_env demo_bought2 = Inr (demo_drawn, 8) \<and>
   buyTicket alice TICKET_PRICE 3 True demo_bought1 = Inr (demo_bought2, 1) \<and>
   drawId (playerTickets demo_bought2 alice ! 1) = 1"
  using current_draw_open [OF demo_reachable(1), of demo_env alice TICKET_PRICE 3 True]
    current_draw_open [OF demo_reachable(2), of demo_env alice TICKET_PRICE 3 True]
    demo_reachable(1,2) demo_bought2_result demo_drawn_result demo_bought2_fields
  by simp

section \<open>Reading a draw\<close>

text \<open>
  \<^verbatim>\<open>getDraw\<close> reads a mapping and has no reverting path. After the first draw the
  current id is 2; ids 0 and 3 were never created, and \<^verbatim>\<open>getDraw\<close> returns the
  all-zero draw for both instead of failing.
\<close>

theorem getDraw_missing_id_counterexample:
  "reachable demo_keccak demo_drawn \<and>
   currentDrawId demo_drawn = 2 \<and>
   getDraw demo_drawn 0 = Inr \<lparr>winningNumber = 0, executedAt = 0, executed = False\<rparr> \<and>
   getDraw demo_drawn 3 = Inr \<lparr>winningNumber = 0, executedAt = 0, executed = False\<rparr>"
  using demo_reachable(3) demo_drawn_fields(3)
  by (simp add: getDraw_def demo_defs call_defs zero_Draw_def)

text \<open>
  Claim C4, as amended. \<^verbatim>\<open>getDraw\<close> never fails. In a reachable state, for an id that
  was never created (0, or greater than the current draw id) it returns the all-zero draw
  (winning number 0, timestamp 0, not executed); for a created id it returns the stored
  draw, which is executed unless it is the current one.
\<close>

theorem getDraw_total:
  "reachable keccak s \<Longrightarrow>
     (d = 0 \<or> currentDrawId s < d \<longrightarrow>
        getDraw s d = Inr \<lparr>winningNumber = 0, executedAt = 0, executed = False\<rparr>) \<and>
     (d \<noteq> 0 \<and> d \<le> currentDrawId s \<longrightarrow>
        getDraw s d = Inr (draws s d) \<and> (executed (draws s d) \<longleftrightarrow> d \<noteq> currentDrawId s))"
proof -
  assume r: "reachable keccak s"
  note i = reachable_draws [OF r]
  have a: "getDraw s d = Inr \<lparr>winningNumber = 0, executedAt = 0, executed = False\<rparr>"
    if "d = 0 \<or> currentDrawId s < d"
    using i that by (auto simp: getDraw_def zero_Draw_def)
  have b: "getDraw s d = Inr (draws s d) \<and> (executed (draws s d) \<longleftrightarrow> d \<noteq> currentDrawId s)"
    if "d \<noteq> 0 \<and> d \<le> currentDrawId s"
    using i that by (auto simp: getDraw_def word_le_less_eq)
  from a b show ?thesis by blast
qed

theorem getDraw_total_witness:
  "reachable demo_keccak demo_drawn \<and>
   currentDrawId demo_drawn < 3 \<and>
   getDraw demo_drawn 3 = Inr \<lparr>winningNumber = 0, executedAt = 0, executed = False\<rparr> \<and>
   (1::uint256) \<le> currentDrawId demo_drawn \<and>
   getDraw demo_drawn 1 = Inr \<lparr>winningNumber = 8, executedAt = 1000, executed = True\<rparr>"
  using getDraw_total [OF demo_reachable(3), of 3] getDraw_total [OF demo_reachable(3), of 1]
    demo_reachable(3) demo_drawn_fields
  by simp

section \<open>Claiming a ticket\<close>

text \<open>The reward is added in \<^verbatim>\<open>euint32\<close>, that is modulo \<open>2 ^ 32\<close>: ten points on top
  of 4294967290 make 4.\<close>

lemma reward_wraps_at_2_32:
  "FHE_add (Encrypted 4294967290) (FHE_asEuint32 WIN_REWARD) = Encrypted 4"
  by (simp add: FHE_add_def FHE_asEuint32_def WIN_REWARD_def)

text \<open>
  Alice holds 429496730 tickets on 8 in draw 1, whose winning number is 8, and has claimed
  all but the last: the state is reachable and her score is 4294967290. Her claim of the
  last ticket succeeds, the ticket wins, and the score it leaves is 4, not 4294967300.
\<close>

theorem claimTicket_reward_wraps_counterexample:
  "reachable demo_keccak demo_high_score \<and>
   executed (draws demo_high_score (drawId (playerTickets demo_high_score alice ! 429496729))) \<and>
   number (playerTickets demo_high_score alice ! 429496729) = Encrypted 8 \<and>
   winningNumber
     (draws demo_high_score (drawId (playerTickets demo_high_score alice ! 429496729))) = 8 \<and>
   playerScores demo_high_score alice = Encrypted 4294967290 \<and>
   claimTicket alice 429496729 demo_high_score = Inr (demo_wrapped, ()) \<and>
   playerScores demo_wrapped alice = Encrypted 4"
proof -
  have at: "playerTickets demo_high_score alice ! 429496729 =
      \<lparr>number = Encrypted 8, drawId = 1, claimed = False\<rparr>"
    by (simp add: demo_high_score_facts(2) nth_append)
  show ?thesis
    using demo_high_score_facts(1,3,4) demo_wrapped_result
    by (simp add: at)
qed

text \<open>
  Claim C1, as amended. In a reachable state, let \<^verbatim>\<open>claimTicket\<close> succeed for a sender and
  a ticket index. The ticket's draw is executed, the ticket holds an encrypted number and
  the sender an encrypted score. If the ticket's number equals the draw's winning number,
  the new score is the old one plus \<^verbatim>\<open>WIN_REWARD\<close> = 10 modulo \<open>2 ^ 32\<close>, which is
  the old one plus 10 as long as the old one is at most \<open>2 ^ 32 - 11\<close>; otherwise the
  score stays as it was. In both cases the ticket is marked claimed and
  \<^verbatim>\<open>TicketClaimProcessed\<close> is emitted.
\<close>

theorem claimTicket_reward:
  "reachable keccak s \<Longrightarrow> claimTicket sender ticketIndex s = Inr (s', u) \<Longrightarrow>
     executed (draws s (drawId (playerTickets s sender ! ticketIndex))) \<and>
     (\<exists>n x. number (playerTickets s sender ! ticketIndex) = Encrypted n \<and>
        playerScores s sender = Encrypted x \<and>
        playerScores s' sender =
          (if n = winningNumber (draws s (drawId (playerTickets s sender ! ticketIndex)))
           then Encrypted (x + WIN_REWARD) else Encrypted x) \<and>
        unat (x + WIN_REWARD) = (unat x + 10) mod 2 ^ 32 \<and>
        (unat x \<le> 2 ^ 32 - 11 \<longrightarrow> unat (x + WIN_REWARD) = unat x + 10)) \<and>
     WIN_REWARD = 10 \<and>
     claimed (playerTickets s' sender ! ticketIndex) \<and>
     events s' = events s @
       [TicketClaimProcessed sender (drawId (playerTickets s sender ! ticketIndex)) ticketIndex]"
proof -
  assume r: "reachable keccak s" and ok: "claimTicket sender ticketIndex s = Inr (s', u)"
  let ?t = "playerTickets s sender ! ticketIndex"
  from ok have idx: "ticketIndex < length (playerTickets s sender)"
    and ex: "executed (draws s (drawId ?t))"
    by (simp_all add: claimTicket_Inr)
  from idx have "?t \<in> set (playerTickets s sender)" by simp
  from reachable_tickets [OF r this] obtain n where n: "number ?t = Encrypted n"
    by (cases "number ?t") simp_all
  from idx have "playerTickets s sender \<noteq> []" by auto
  with reachable_initialized [OF r, of sender] reachable_scores [OF r, of sender]
  obtain x where x: "playerScores s sender = Encrypted x"
    by (cases "playerScores s sender") simp_all
  from ok n x have sc: "playerScores s' sender =
      (if n = winningNumber (draws s (drawId ?t)) then Encrypted (x + WIN_REWARD) else Encrypted x)"
    by (auto simp: claimTicket_Inr WIN_REWARD_def)
  from ok idx have cl: "claimed (playerTickets s' sender ! ticketIndex)"
    by (auto simp: claimTicket_Inr)
  from ok have ev: "events s' = events s @ [TicketClaimProcessed sender (drawId ?t) ticketIndex]"
    by (auto simp: claimTicket_Inr)
  have md: "unat (x + WIN_REWARD) = (unat x + 10) mod 2 ^ 32"
    by (simp add: WIN_REWARD_def unat_word_ariths)
  then have ex10: "unat x \<le> 2 ^ 32 - 11 \<longrightarrow> unat (x + WIN_REWARD) = unat x + 10"
    by simp
  have w: "WIN_REWARD = 10" by (simp add: WIN_REWARD_def)
  from n x sc md ex10
  have "\<exists>n x. number ?t = Encrypted n \<and> playerScores s sender = Encrypted x \<and>
      playerScores s' sender =
        (if n = winningNumber (draws s (drawId ?t)) then Encrypted (x + WIN_REWARD)
         else Encrypted x) \<and>
      unat (x + WIN_REWARD) = (unat x + 10) mod 2 ^ 32 \<and>
      (unat x \<le> 2 ^ 32 - 11 \<longrightarrow> unat (x + WIN_REWARD) = unat x + 10)"
    by blast
  with ex w cl ev show ?thesis
    by (intro conjI)
qed

theorem claimTicket_reward_witness:
  "reachable demo_keccak demo_drawn \<and>
   claimTicket alice 0 demo_drawn = Inr (demo_claimed1, ()) \<and>
   number (playerTickets demo_drawn alice ! 0) = Encrypted 8 \<and>
   winningNumber (draws demo_drawn 1) = 8 \<and>
   playerScores demo_drawn alice = Encrypted 0 \<and>
   playerScores demo_claimed1 alice = Encrypted 10 \<and>
   claimed (playerTickets demo_claimed1 alice ! 0) \<and>
   reachable demo_keccak demo_claimed1 \<and>
   claimTicket alice 1 demo_claimed1 = Inr (demo_claimed2, ()) \<and>
   number (playerTickets demo_claimed1 alice ! 1) = Encrypted 3 \<and>
   playerScores demo_claimed2 alice = Encrypted 10 \<and>
   claimed (playerTickets demo_claimed2 alice ! 1) \<and>
   events demo_claimed2 = events demo_claimed1 @ [TicketClaimProcessed alice 1 1]"
proof -
  from claimTicket_reward [OF demo_reachable(3) demo_claimed1_result]
  have c1: "claimed (playerTickets demo_claimed1 alice ! 0)"
    by blast
  from claimTicket_reward [OF demo_reachable(4) demo_claimed2_result]
  have c2: "claimed (playerTickets demo_claimed2 alice ! 1)"
    and "events demo_claimed2 = events demo_claimed1 @
      [TicketClaimProcessed alice (drawId (playerTickets demo_claimed1 alice ! 1)) 1]"
    by blast+
  then have ev: "events demo_claimed2 = events demo_claimed1 @ [TicketClaimProcessed alice 1 1]"
    by (simp add: demo_claimed1_fields)
  from c1 c2 ev demo_reachable(3,4) demo_claimed1_result demo_claimed2_result
  show ?thesis
    by (simp add: demo_drawn_fields demo_claimed1_fields demo_claimed2_fields)
qed

text \<open>
  Claim C2. In a reachable state \<^verbatim>\<open>claimTicket\<close> fails with "Invalid ticket index"
  exactly when the index is at or beyond the sender's ticket count, with
  "Already processed" exactly when the ticket at the index is claimed, with
  "Draw not executed" exactly when the draw of the ticket at the index is not executed, and
  succeeds in every other case. After a successful claim, a claim of the same sender and
  index after any further transactions fails with "Already processed", and that reverted
  call leaves the whole state, the score included, as it was.
\<close>

theorem claimTicket_outcomes:
  "reachable keccak s \<Longrightarrow>
     (claimTicket sender ticketIndex s = Inl InvalidTicketIndex \<longleftrightarrow>
        length (playerTickets s sender) \<le> ticketIndex) \<and>
     (claimTicket sender ticketIndex s = Inl AlreadyProcessed \<longleftrightarrow>
        ticketIndex < length (playerTickets s sender) \<and>
        claimed (playerTickets s sender ! ticketIndex)) \<and>
     (claimTicket sender ticketIndex s = Inl DrawNotExecuted \<longleftrightarrow>
        ticketIndex < length (playerTickets s sender) \<and>
        \<not> executed (draws s (drawId (playerTickets s sender ! ticketIndex)))) \<and>
     ((\<exists>s'. claimTicket sender ticketIndex s = Inr (s', ())) \<longleftrightarrow>
        ticketIndex < length (playerTickets s sender) \<and>
        \<not> claimed (playerTickets s sender ! ticketIndex) \<and>
        executed (draws s (drawId (playerTickets s sender ! ticketIndex)))) \<and>
     (claimTicket sender ticketIndex s = Inr (s', ()) \<and> (step keccak)\<^sup>*\<^sup>* s' s'' \<longrightarrow>
        claimTicket sender ticketIndex s'' = Inl AlreadyProcessed \<and>
        state_after s'' (claimTicket sender ticketIndex s'') = s'')"
proof -
  assume r: "reachable keccak s"
  let ?ts = "playerTickets s sender"
  have a: "claimTicket sender ticketIndex s = Inl InvalidTicketIndex \<longleftrightarrow>
        length ?ts \<le> ticketIndex"
    by (auto simp: claimTicket_def Let_def)
  have b: "claimTicket sender ticketIndex s = Inl AlreadyProcessed \<longleftrightarrow>
        ticketIndex < length ?ts \<and> claimed (?ts ! ticketIndex)"
    by (auto simp: claimTicket_def Let_def)
  have inv: "executed (draws s (drawId (?ts ! ticketIndex)))"
    if "ticketIndex < length ?ts" "claimed (?ts ! ticketIndex)"
  proof -
    from that(1) have "?ts ! ticketIndex \<in> set ?ts" by simp
    from reachable_tickets [OF r this] that(2) reachable_draws [OF r]
    show ?thesis by simp
  qed
  have c: "claimTicket sender ticketIndex s = Inl DrawNotExecuted \<longleftrightarrow>
        ticketIndex < length ?ts \<and> \<not> executed (draws s (drawId (?ts ! ticketIndex)))"
    using inv by (auto simp: claimTicket_def Let_def)
  have d: "(\<exists>s'. claimTicket sender ticketIndex s = Inr (s', ())) \<longleftrightarrow>
        ticketIndex < length ?ts \<and> \<not> claimed (?ts ! ticketIndex) \<and>
        executed (draws s (drawId (?ts ! ticketIndex)))"
    by (simp add: claimTicket_Inr)
  have e: "claimTicket sender ticketIndex s'' = Inl AlreadyProcessed \<and>
        state_after s'' (claimTicket sender ticketIndex s'') = s''"
    if "claimTicket sender ticketIndex s = Inr (s', ()) \<and> (step keccak)\<^sup>*\<^sup>* s' s''"
  proof -
    from that have ok: "claimTicket sender ticketIndex s = Inr (s', ())"
      and st: "(step keccak)\<^sup>*\<^sup>* s' s''" by simp_all
    from ok have "ticketIndex < length (playerTickets s' sender)"
      "claimed (playerTickets s' sender ! ticketIndex)"
      by (auto simp: claimTicket_Inr)
    with steps_ticket [OF st, of ticketIndex sender]
    have "ticketIndex < length (playerTickets s'' sender)"
      "claimed (playerTickets s'' sender ! ticketIndex)"
      by simp_all
    then have "claimTicket sender ticketIndex s'' = Inl AlreadyProcessed"
      by (simp add: claimTicket_def Let_def)
    then show ?thesis by simp
  qed
  from a b c d e show ?thesis by blast
qed

theorem claimTicket_outcomes_witness:
  "reachable demo_keccak demo_drawn \<and>
   claimTicket alice 5 demo_drawn = Inl InvalidTicketIndex \<and>
   length (playerTickets demo_drawn alice) = 2 \<and>
   reachable demo_keccak demo_bought2 \<and>
   claimTicket alice 0 demo_bought2 = Inl DrawNotExecuted \<and>
   claimTicket alice 0 demo_drawn = Inr (demo_claimed1, ()) \<and>
   claimTicket alice 0 demo_claimed1 = Inl AlreadyProcessed \<and>
   (step demo_keccak)\<^sup>*\<^sup>* demo_claimed1 demo_claimed2 \<and>
   claimTicket alice 0 demo_claimed2 = Inl AlreadyProcessed \<and>
   state_after demo_claimed2 (claimTicket alice 0 demo_claimed2) = demo_claimed2 \<and>
   playerScores demo_claimed2 alice = Encrypted 10"
proof -
  from claimTicket_outcomes [OF demo_reachable(3), of alice 5]
  have a: "claimTicket alice 5 demo_drawn = Inl InvalidTicketIndex"
    by (simp add: demo_drawn_fields)
  from claimTicket_outcomes [OF demo_reachable(2), of alice 0]
  have b: "claimTicket alice 0 demo_bought2 = Inl DrawNotExecuted"
    by (simp add: demo_bought2_fields)
  from claimTicket_outcomes [OF demo_reachable(4), of alice 0]
  have c: "claimTicket alice 0 demo_claimed1 = Inl AlreadyProcessed"
    by (simp add: demo_claimed1_fields)
  from claimTicket_outcomes [OF demo_reachable(3), of alice 0 demo_claimed1 demo_claimed2]
    demo_claimed1_result demo_later(1)
  have d: "claimTicket alice 0 demo_claimed2 = Inl AlreadyProcessed \<and>
     state_after demo_claimed2 (claimTicket alice 0 demo_claimed2) = demo_claimed2"
    by blast
  from a b c d demo_reachable(2,3) demo_claimed1_result demo_later(1)
  show ?thesis
    by (simp add: demo_drawn_fields demo_claimed2_fields)
qed

section \<open>The life of a ticket\<close>

text \<open>
  Claim C9. A successful \<^verbatim>\<open>claimTicket\<close> sets the claimed flag of the ticket it names and
  changes nothing else in any ticket array; it leaves every other player's score, the
  initialisation flags, all draws and the current draw id as they were. Through any
  sequence of transactions a ticket stays at its index (none is deleted), keeps its number
  and its draw id, and once claimed stays claimed.
\<close>

theorem tickets_only_claimed:
  "(claimTicket sender ticketIndex s = Inr (s', u) \<longrightarrow>
      playerTickets s' sender ! ticketIndex =
        (playerTickets s sender ! ticketIndex)\<lparr>claimed := True\<rparr> \<and>
      length (playerTickets s' q) = length (playerTickets s q) \<and>
      (q \<noteq> sender \<or> j \<noteq> ticketIndex \<longrightarrow> playerTickets s' q ! j = playerTickets s q ! j) \<and>
      (q \<noteq> sender \<longrightarrow> playerScores s' q = playerScores s q) \<and>
      scoreInitialized s' = scoreInitialized s \<and>
      draws s' = draws s \<and>
      currentDrawId s' = currentDrawId s) \<and>
   ((step keccak)\<^sup>*\<^sup>* s s'' \<and> i < length (playerTickets s p) \<longrightarrow>
      i < length (playerTickets s'' p) \<and>
      number (playerTickets s'' p ! i) = number (playerTickets s p ! i) \<and>
      drawId (playerTickets s'' p ! i) = drawId (playerTickets s p ! i) \<and>
      (claimed (playerTickets s p ! i) \<longrightarrow> claimed (playerTickets s'' p ! i)))"
proof -
  have a: "playerTickets s' sender ! ticketIndex =
        (playerTickets s sender ! ticketIndex)\<lparr>claimed := True\<rparr> \<and>
      length (playerTickets s' q) = length (playerTickets s q) \<and>
      (q \<noteq> sender \<or> j \<noteq> ticketIndex \<longrightarrow> playerTickets s' q ! j = playerTickets s q ! j) \<and>
      (q \<noteq> sender \<longrightarrow> playerScores s' q = playerScores s q) \<and>
      scoreInitialized s' = scoreInitialized s \<and>
      draws s' = draws s \<and>
      currentDrawId s' = currentDrawId s"
    if "claimTicket sender ticketIndex s = Inr (s', u)"
    using that by (auto simp: claimTicket_Inr)
  have b: "i < length (playerTickets s'' p) \<and>
      number (playerTickets s'' p ! i) = number (playerTickets s p ! i) \<and>
      drawId (playerTickets s'' p ! i) = drawId (playerTickets s p ! i) \<and>
      (claimed (playerTickets s p ! i) \<longrightarrow> claimed (playerTickets s'' p ! i))"
    if "(step keccak)\<^sup>*\<^sup>* s s'' \<and> i < length (playerTickets s p)"
    using that steps_ticket [of keccak s s'' i p] by blast
  from a b show ?thesis by blast
qed

theorem tickets_only_claimed_witness:
  "claimTicket alice 0 demo_drawn = Inr (demo_claimed1, ()) \<and>
   playerTickets demo_claimed1 alice ! 0 = \<lparr>number = Encrypted 8, drawId = 1, claimed = True\<rparr> \<and>
   playerTickets demo_claimed1 alice ! 1 = playerTickets demo_drawn alice ! 1 \<and>
   playerScores demo_claimed1 bob = playerScores demo_drawn bob \<and>
   draws demo_claimed1 = draws demo_drawn \<and>
   currentDrawId demo_claimed1 = currentDrawId demo_drawn \<and>
   (step demo_keccak)\<^sup>*\<^sup>* demo_bought2 demo_claimed2 \<and>
   length (playerTickets demo_bought2 alice) = 2 \<and>
   length (playerTickets demo_claimed2 alice) = 2 \<and>
   number (playerTickets demo_claimed2 alice ! 1) = Encrypted 3 \<and>
   drawId (playerTickets demo_claimed2 alice ! 1) = 1"
proof -
  have ne: "bob \<noteq> alice" by (simp add: alice_def bob_def)
  from tickets_only_claimed [of alice 0 demo_drawn demo_claimed1 "()" alice 1]
    demo_claimed1_result
  have a: "playerTickets demo_claimed1 alice ! 0 =
      (playerTickets demo_drawn alice ! 0)\<lparr>claimed := True\<rparr>"
    "playerTickets demo_claimed1 alice ! 1 = playerTickets demo_drawn alice ! 1"
    "draws demo_claimed1 = draws demo_drawn"
    "currentDrawId demo_claimed1 = currentDrawId demo_drawn"
    by simp_all
  from tickets_only_claimed [of alice 0 demo_drawn demo_claimed1 "()" bob 0]
    demo_claimed1_result ne
  have b: "playerScores demo_claimed1 bob = playerScores demo_drawn bob"
    by simp
  from tickets_only_claimed [where s = demo_bought2 and s'' = demo_claimed2 and i = 1
      and p = alice and keccak = demo_keccak] demo_later(2)
  have c: "number (playerTickets demo_claimed2 alice ! 1) =
      number (playerTickets demo_bought2 alice ! 1)"
    "drawId (playerTickets demo_claimed2 alice ! 1) = drawId (playerTickets demo_bought2 alice ! 1)"
    by (simp_all add: demo_bought2_fields)
  from a b c demo_claimed1_result demo_later(2) show ?thesis
    by (simp add: demo_bought2_fields demo_drawn_fields demo_claimed2_fields)
qed

end
